theory Spec2Isabelle
  imports Complex_Main "HOL-Library.Word"
begin

section \<open>The super-dense simulation clock (adevs\_time.h)\<close>

text \<open>
  The struct \<^verbatim>\<open>template<class T = double> struct Time { T t; unsigned int c; ... }\<close>.
  The real field keeps the template parameter \<open>'t\<close>; the counter is an
  \<^verbatim>\<open>unsigned int\<close>, a 32-bit word whose addition wraps.  Where the optimistic engine
  uses \<^verbatim>\<open>Time\<close> at \<^verbatim>\<open>double\<close>, the double is idealised as a real number: only its
  comparisons matter there.
\<close>

record 't Time =
  Time_t :: 't
  Time_c :: "32 word"

text \<open>\<^verbatim>\<open>Time(T t = 0, unsigned int c = 0)\<close>\<close>

definition mkTime :: "'t \<Rightarrow> 32 word \<Rightarrow> 't Time" where
  "mkTime x k = \<lparr>Time_t = x, Time_c = k\<rparr>"

text \<open>
  \<^verbatim>\<open>Time operator+(const Time& t2) const
  { if (t2.t == 0) return Time(t,t2.c+c); else return Time(t+t2.t,0); }\<close>
\<close>

definition Time_plus :: "('t::{zero,plus}) Time \<Rightarrow> 't Time \<Rightarrow> 't Time" where
  "Time_plus a t2 =
     (if Time_t t2 = 0 then mkTime (Time_t a) (Time_c t2 + Time_c a)
      else mkTime (Time_t a + Time_t t2) 0)"

text \<open>\<^verbatim>\<open>T operator-(T t2) const { return t-t2; }\<close>\<close>

definition Time_minus :: "('t::minus) Time \<Rightarrow> 't \<Rightarrow> 't" where
  "Time_minus a t2 = Time_t a - t2"

text \<open>\<^verbatim>\<open>bool operator==(const Time& t2) const { return (t == t2.t && c == t2.c); }\<close>\<close>

definition Time_eq :: "'t Time \<Rightarrow> 't Time \<Rightarrow> bool" where
  "Time_eq a t2 = (Time_t a = Time_t t2 \<and> Time_c a = Time_c t2)"

text \<open>\<^verbatim>\<open>bool operator<(const Time& t2) const
  { return (t < t2.t || (t == t2.t && c < t2.c)); }\<close>\<close>

definition Time_less :: "('t::ord) Time \<Rightarrow> 't Time \<Rightarrow> bool" where
  "Time_less a t2 = (Time_t a < Time_t t2 \<or> (Time_t a = Time_t t2 \<and> Time_c a < Time_c t2))"

text \<open>\<^verbatim>\<open>operator<=\<close> is \<^verbatim>\<open>(*this == t2 || *this < t2)\<close>, \<^verbatim>\<open>operator>\<close> is
  \<^verbatim>\<open>!(*this <= t2)\<close> and \<^verbatim>\<open>operator>=\<close> is \<^verbatim>\<open>!(*this < t2)\<close>.\<close>

definition Time_le :: "('t::ord) Time \<Rightarrow> 't Time \<Rightarrow> bool" where
  "Time_le a t2 = (Time_eq a t2 \<or> Time_less a t2)"

definition Time_greater :: "('t::ord) Time \<Rightarrow> 't Time \<Rightarrow> bool" where
  "Time_greater a t2 = (\<not> Time_le a t2)"

definition Time_ge :: "('t::ord) Time \<Rightarrow> 't Time \<Rightarrow> bool" where
  "Time_ge a t2 = (\<not> Time_less a t2)"

section \<open>The logical process of the optimistic engine (adevs\_lp.h)\<close>

text \<open>
  \<^verbatim>\<open>typedef enum { RB, IO } MessageType;\<close> and the structs \<^verbatim>\<open>Message\<close> and
  \<^verbatim>\<open>CheckPoint\<close>.  The source logical process of a message is a pointer; it is
  modelled by a natural number (its address).  The \<^verbatim>\<open>void*\<close> of a checkpoint is a
  handle of type \<open>'h\<close> handed out by the model's \<^verbatim>\<open>save_state\<close>.
\<close>

datatype MessageType = RB | IO

record 'x Message =
  msg_t :: "real Time"
  msg_src :: nat
  msg_value :: 'x
  msg_type :: MessageType

record 'h CheckPoint =
  chk_t :: "real Time"
  chk_data :: 'h

text \<open>
  The class \<^verbatim>\<open>Atomic<X>\<close> of the optimistic engine is not among the sources; its
  virtual methods are a parameter of the model.  The private state of the atomic model
  has type \<open>'s\<close>, a bag \<^verbatim>\<open>Bag<X>\<close> is the list of its elements.  The methods
  \<^verbatim>\<open>gc_state\<close> and \<^verbatim>\<open>gc_output\<close> release resources; their calls are recorded in the
  log of the logical process.
\<close>

record ('s, 'x, 'h) LP_Atomic =
  lp_ta :: "'s \<Rightarrow> real"
  lp_delta_int :: "'s \<Rightarrow> 's"
  lp_delta_ext :: "real \<Rightarrow> 'x list \<Rightarrow> 's \<Rightarrow> 's"
  lp_delta_conf :: "'x list \<Rightarrow> 's \<Rightarrow> 's"
  lp_save_state :: "'s \<Rightarrow> 'h"
  lp_restore_state :: "'h \<Rightarrow> 's \<Rightarrow> 's"

datatype ('x, 'h) LP_call =
    Gc_state 'h
  | Gc_output "'x list"
  | Restore_state 'h
  | Save_state 'h
  | Delta_int
  | Delta_conf "'x list"
  | Delta_ext real "'x list"

text \<open>
  What ends a call early: the exception thrown for a negative time advance, an
  \<^verbatim>\<open>assert\<close> that fails (in a build without \<^verbatim>\<open>NDEBUG\<close>), and \<^verbatim>\<open>back()\<close> of an
  empty list, which C++ leaves undefined.
\<close>

datatype LP_exception =
    Negative_time_advance
  | Assertion_failed
  | Undefined_behaviour

text \<open>The private members of \<^verbatim>\<open>LogicalProcess<X>\<close>, the state of the atomic model
  it owns (\<open>model_state\<close>, \<open>model_tL\<close>, \<open>model_active\<close>) and the log of calls.\<close>

record ('s, 'x, 'h) LogicalProcess =
  lastCommit :: "real Time"
  time_advance :: real
  lp_tL :: "real Time"
  lp_input :: "'x Message list"
  avail :: "'x Message list"
  used :: "'x Message list"
  lp_output :: "'x Message list"
  discard :: "'x Message list"
  chk_pt :: "'h CheckPoint list"
  recipients :: "nat list"
  rb_pending :: bool
  rb_time :: "real Time"
  tMinInput :: "real Time"
  io_bag :: "'x list"
  model_state :: 's
  model_tL :: real
  model_active :: bool
  lp_log :: "('x, 'h) LP_call list"

text \<open>The constants of \<^verbatim>\<open><cfloat>\<close> and \<^verbatim>\<open><climits>\<close> for an IEEE double and a 32-bit
  int, and \<^verbatim>\<open>Time::Inf()\<close>, which is \<^verbatim>\<open>Time(type_max<T>(),0)\<close>.\<close>

definition DBL_MAX :: real where
  "DBL_MAX = (2 - 1 / 2 ^ 52) * 2 ^ 1023"

definition INT_MAX :: "32 word" where
  "INT_MAX = 2147483647"


text \<open>
  \<^verbatim>\<open>insert_message\<close>: walk to the first message with a larger time stamp and insert
  before it.
\<close>

fun insert_message :: "'x Message list \<Rightarrow> 'x Message \<Rightarrow> 'x Message list" where
  "insert_message [] msg = [msg]"
| "insert_message (m # l) msg =
     (if Time_greater (msg_t m) (msg_t msg) then msg # m # l
      else m # insert_message l msg)"

text \<open>``All of these lists are sorted by time stamp with the earliest time stamp at the
  front'': the order that the source keeps for its queues and its checkpoints.\<close>

definition time_ordered :: "'x Message list \<Rightarrow> bool" where
  "time_ordered l = sorted_wrt (\<lambda>a b. Time_le (msg_t a) (msg_t b)) l"

definition chk_ordered :: "'h CheckPoint list \<Rightarrow> bool" where
  "chk_ordered l = sorted_wrt (\<lambda>a b. Time_le (chk_t a) (chk_t b)) l"

subsection \<open>fossilCollect\<close>




subsection \<open>execDeltfunc\<close>

text \<open>
  The two erase loops of a rollback message: a message is erased when
  \<^verbatim>\<open>(*msg_iter).src == msg.src && (*msg_iter).t >= msg.t\<close>; the loop over \<^verbatim>\<open>used\<close>
  also sets \<^verbatim>\<open>used_msg_cancelled\<close>.
\<close>

definition cancelled_by :: "'x Message \<Rightarrow> 'x Message \<Rightarrow> bool" where
  "cancelled_by msg m = (msg_src m = msg_src msg \<and> Time_ge (msg_t m) (msg_t msg))"

fun erase_avail :: "'x Message \<Rightarrow> 'x Message list \<Rightarrow> 'x Message list" where
  "erase_avail msg [] = []"
| "erase_avail msg (m # l) =
     (if cancelled_by msg m then erase_avail msg l else m # erase_avail msg l)"

fun erase_used :: "'x Message \<Rightarrow> 'x Message list \<Rightarrow> bool \<Rightarrow> 'x Message list \<times> bool" where
  "erase_used msg [] used_msg_cancelled = ([], used_msg_cancelled)"
| "erase_used msg (m # l) used_msg_cancelled =
     (if cancelled_by msg m then erase_used msg l True
      else (let (l1, c) = erase_used msg l used_msg_cancelled in (m # l1, c)))"

text \<open>
  The loops of the rollback work at the back of their lists, so they take the list
  reversed.  \<^verbatim>\<open>while (!output.empty() && output.back().t > msg.t)\<close> moves the back of
  \<^verbatim>\<open>output\<close> into \<^verbatim>\<open>discard\<close>:
\<close>

fun discard_outputs ::
  "real Time \<Rightarrow> 'x Message list \<Rightarrow> 'x Message list \<Rightarrow> 'x Message list \<times> 'x Message list" where
  "discard_outputs t [] dis = ([], dis)"
| "discard_outputs t (m # rout) dis =
     (if Time_greater (msg_t m) t then discard_outputs t rout (insert_message dis m)
      else (m # rout, dis))"

text \<open>
  \<^verbatim>\<open>while (chk_pt.back().t > msg.t) { gc_state; pop_back; assert(!chk_pt.empty()); }\<close>.
  The loop does not test for an empty list: \<^verbatim>\<open>back()\<close> of an empty list is undefined,
  and the assertion guards it where assertions are compiled in.  The flag \<open>ndebug\<close>
  says that they are not.
\<close>

fun discard_chk ::
  "bool \<Rightarrow> real Time \<Rightarrow> 'h CheckPoint list \<Rightarrow>
     LP_exception + ('h CheckPoint list \<times> ('x, 'h) LP_call list)" where
  "discard_chk ndebug t [] = Inl Undefined_behaviour"
| "discard_chk ndebug t (c # rchk) =
     (if Time_greater (chk_t c) t then
        (if rchk = [] \<and> \<not> ndebug then Inl Assertion_failed
         else (case discard_chk ndebug t rchk of
                 Inl e \<Rightarrow> Inl e
               | Inr (rchk1, calls) \<Rightarrow> Inr (rchk1, Gc_state (chk_data c) # calls)))
      else Inr (c # rchk, []))"

text \<open>
  \<^verbatim>\<open>while (!used.empty() && used.back().t >= tL)
  { assert(avail.empty() || used.back().t <= avail.front().t);
    avail.push_front(used.back()); used.pop_back(); }\<close>
\<close>

fun restore_used ::
  "bool \<Rightarrow> real Time \<Rightarrow> 'x Message list \<Rightarrow> 'x Message list \<Rightarrow>
     LP_exception + ('x Message list \<times> 'x Message list)" where
  "restore_used ndebug tL1 [] av = Inr ([], av)"
| "restore_used ndebug tL1 (u # rused) av =
     (if Time_ge (msg_t u) tL1 then
        (if \<not> ndebug \<and> \<not> (av = [] \<or> Time_le (msg_t u) (msg_t (hd av)))
         then Inl Assertion_failed
         else restore_used ndebug tL1 rused (u # av))
      else Inr (u # rused, av))"

text \<open>The body of \<^verbatim>\<open>if ((msg.type != RB && msg.t < tL) || used_msg_cancelled)\<close>.\<close>

definition rollback ::
  "('s, 'x, 'h) LP_Atomic \<Rightarrow> bool \<Rightarrow> ('s, 'x, 'h) LogicalProcess \<Rightarrow> 'x Message \<Rightarrow>
     LP_exception + ('s, 'x, 'h) LogicalProcess" where
  "rollback M ndebug lp msg =
     (if chk_pt lp = [] \<and> \<not> ndebug then Inl Assertion_failed
      else
        let (rout, dis) = discard_outputs (msg_t msg) (rev (lp_output lp)) (discard lp) in
        case discard_chk ndebug (msg_t msg) (rev (chk_pt lp)) of
          Inl e \<Rightarrow> Inl e
        | Inr (rchk, calls) \<Rightarrow>
           (case rchk of
              [] \<Rightarrow> Inl Undefined_behaviour
            | c # rchk1 \<Rightarrow>
               let st = lp_restore_state M (chk_data c) (model_state lp);
                   dt = lp_ta M st
               in if dt < 0 then Inl Negative_time_advance
                  else
                    (case restore_used ndebug (chk_t c) (rev (used lp)) (avail lp) of
                       Inl e \<Rightarrow> Inl e
                     | Inr (rused, av) \<Rightarrow>
                        let t_bad = Time_plus (msg_t msg) (mkTime 0 1) in
                        Inr (lp\<lparr>lp_output := rev rout, discard := dis, chk_pt := rev rchk1,
                                lp_tL := chk_t c, model_tL := Time_t (chk_t c),
                                model_state := st, time_advance := dt,
                                used := rev rused, avail := av,
                                rb_time := (if \<not> rb_pending lp \<or> Time_less t_bad (rb_time lp)
                                            then t_bad else rb_time lp),
                                rb_pending := True,
                                lp_log := lp_log lp @ calls @
                                  [Restore_state (chk_data c), Gc_state (chk_data c)]\<rparr>))))"

text \<open>One turn of \<^verbatim>\<open>while (!input.empty())\<close>, for the message \<open>msg\<close> taken from the
  front of \<^verbatim>\<open>input\<close>.\<close>

definition accept_message ::
  "('s, 'x, 'h) LP_Atomic \<Rightarrow> bool \<Rightarrow> ('s, 'x, 'h) LogicalProcess \<Rightarrow> 'x Message \<Rightarrow>
     LP_exception + ('s, 'x, 'h) LogicalProcess" where
  "accept_message M ndebug lp msg =
     (let (lp1, used_msg_cancelled) =
            (if msg_type msg = RB then
               (let (used1, c) = erase_used msg (used lp) False
                in (lp\<lparr>avail := erase_avail msg (avail lp), used := used1\<rparr>, c))
             else (lp\<lparr>avail := insert_message (avail lp) msg\<rparr>, False))
      in if (msg_type msg \<noteq> RB \<and> Time_less (msg_t msg) (lp_tL lp1)) \<or> used_msg_cancelled
         then rollback M ndebug lp1 msg
         else Inr lp1)"

fun drain_input ::
  "('s, 'x, 'h) LP_Atomic \<Rightarrow> bool \<Rightarrow> 'x Message list \<Rightarrow> ('s, 'x, 'h) LogicalProcess \<Rightarrow>
     LP_exception + ('s, 'x, 'h) LogicalProcess" where
  "drain_input M ndebug [] lp = Inr lp"
| "drain_input M ndebug (msg # rest) lp =
     (case accept_message M ndebug (lp\<lparr>lp_input := rest\<rparr>) msg of
        Inl e \<Rightarrow> Inl e
      | Inr lp1 \<Rightarrow> drain_input M ndebug rest lp1)"

text \<open>
  \<^verbatim>\<open>while (!avail.empty() && avail.front().t == tN)\<close>: the messages of the next event
  go into the bag and to the back of \<^verbatim>\<open>used\<close>.
\<close>

fun take_input ::
  "bool \<Rightarrow> real Time \<Rightarrow> 'x Message list \<Rightarrow> 'x Message list \<Rightarrow> 'x list \<Rightarrow>
     LP_exception + ('x Message list \<times> 'x Message list \<times> 'x list)" where
  "take_input ndebug tN [] us bag = Inr ([], us, bag)"
| "take_input ndebug tN (m # av) us bag =
     (if Time_eq (msg_t m) tN then
        (if \<not> ndebug \<and> \<not> (us = [] \<or> Time_ge (msg_t m) (msg_t (last us)))
         then Inl Assertion_failed
         else take_input ndebug tN av (us @ [m]) (bag @ [msg_value m]))
      else Inr (m # av, us, bag))"

definition next_event ::
  "('s, 'x, 'h) LP_Atomic \<Rightarrow> bool \<Rightarrow> ('s, 'x, 'h) LogicalProcess \<Rightarrow>
     LP_exception + ('s, 'x, 'h) LogicalProcess" where
  "next_event M ndebug lp =
     (let tSelf = (if time_advance lp < DBL_MAX
                   then Time_plus (lp_tL lp) (mkTime (time_advance lp) 0)
                   else mkTime DBL_MAX INT_MAX);
          tN = (if avail lp \<noteq> [] \<and> Time_less (msg_t (hd (avail lp))) tSelf
                then msg_t (hd (avail lp)) else tSelf)
      in case take_input ndebug tN (avail lp) (used lp) [] of
           Inl e \<Rightarrow> Inl e
         | Inr (av, us, bag) \<Rightarrow>
            if \<not> ndebug \<and> \<not> Time_le tN tSelf then Inl Assertion_failed
            else
              let retract = (\<not> rb_pending lp \<and> time_advance lp < DBL_MAX \<and> Time_less tN tSelf)
              in if retract \<and> lp_output lp = [] then Inl Undefined_behaviour
                 else
                   let lp1 = lp\<lparr>avail := av, used := us, io_bag := bag\<rparr>;
                       lp2 = (if retract
                              then lp1\<lparr>rb_pending := True, rb_time := tSelf,
                                       discard := insert_message (discard lp) (last (lp_output lp)),
                                       lp_output := butlast (lp_output lp)\<rparr>
                              else lp1)
                   in if Time_t tN = DBL_MAX then Inr lp2
                      else if \<not> ndebug \<and> \<not> Time_le (lp_tL lp) tN then Inl Assertion_failed
                      else
                        let h = lp_save_state M (model_state lp);
                            c = \<lparr>chk_t = lp_tL lp, chk_data = h\<rparr>;
                            (st, call) =
                              (if bag = [] then (lp_delta_int M (model_state lp), Delta_int)
                               else if Time_eq tN tSelf
                               then (lp_delta_conf M bag (model_state lp), Delta_conf bag)
                               else (lp_delta_ext M (Time_t tN - Time_t (lp_tL lp)) bag
                                       (model_state lp),
                                     Delta_ext (Time_t tN - Time_t (lp_tL lp)) bag));
                            tL1 = Time_plus tN (mkTime 0 1)
                        in Inr (lp2\<lparr>chk_pt := chk_pt lp @ [c], model_state := st,
                                    time_advance := lp_ta M st, lp_tL := tL1,
                                    model_tL := Time_t tL1,
                                    lp_log := lp_log lp @ [Save_state h, call]\<rparr>))"

definition execDeltfunc ::
  "('s, 'x, 'h) LP_Atomic \<Rightarrow> bool \<Rightarrow> ('s, 'x, 'h) LogicalProcess \<Rightarrow>
     LP_exception + ('s, 'x, 'h) LogicalProcess" where
  "execDeltfunc M ndebug lp =
     (case drain_input M ndebug (lp_input lp) lp of
        Inl e \<Rightarrow> Inl e
      | Inr lp1 \<Rightarrow> next_event M ndebug lp1)"

subsection \<open>A logical process to run\<close>

text \<open>
  A counter with time advance 1: every internal event adds 1, an external event 10 and a
  confluent event 100.  Its checkpoints are the saved counter values.
\<close>

definition counter_model :: "(nat, nat, nat) LP_Atomic" where
  "counter_model =
     \<lparr>lp_ta = (\<lambda>s. 1), lp_delta_int = (\<lambda>s. s + 1),
      lp_delta_ext = (\<lambda>e xb s. s + 10), lp_delta_conf = (\<lambda>xb s. s + 100),
      lp_save_state = (\<lambda>s. s), lp_restore_state = (\<lambda>h s. h)\<rparr>"

definition io_msg :: "real \<Rightarrow> nat \<Rightarrow> nat \<Rightarrow> nat Message" where
  "io_msg x s v = \<lparr>msg_t = mkTime x 0, msg_src = s, msg_value = v, msg_type = IO\<rparr>"

definition rb_msg :: "real \<Rightarrow> nat \<Rightarrow> nat Message" where
  "rb_msg x s = \<lparr>msg_t = mkTime x 0, msg_src = s, msg_value = 0, msg_type = RB\<rparr>"

text \<open>
  The counter after its internal events at times 1, 2 and 3, with the output for time 4
  already sent, one input of process 8 used at time 1/2 and one of process 7 waiting for
  time 9.
\<close>

definition lp_at_3 :: "(nat, nat, nat) LogicalProcess" where
  "lp_at_3 =
     \<lparr>lastCommit = mkTime 0 0, time_advance = 1, lp_tL = mkTime 3 1,
      lp_input = [], avail = [io_msg 9 7 90], used = [io_msg (1/2) 8 5],
      lp_output = [io_msg 1 1 11, io_msg 2 1 12, io_msg 3 1 13, io_msg 4 1 14],
      discard = [io_msg (1/4) 1 10],
      chk_pt = [\<lparr>chk_t = mkTime 0 0, chk_data = 0\<rparr>, \<lparr>chk_t = mkTime (1/2) 1, chk_data = 10\<rparr>,
                \<lparr>chk_t = mkTime 1 1, chk_data = 11\<rparr>, \<lparr>chk_t = mkTime 2 1, chk_data = 12\<rparr>],
      recipients = [], rb_pending = False, rb_time = mkTime DBL_MAX INT_MAX,
      tMinInput = mkTime 0 0, io_bag = [], model_state = 13, model_tL = 3,
      model_active = False, lp_log = []\<rparr>"

section \<open>The sequential simulator (adevs/simulator.h)\<close>

text \<open>
  A pin is identified by a number, an atomic model by its address.
  \<^verbatim>\<open>PinValue<ValueType>\<close> is a pin and a value.
\<close>

type_synonym pin_t = nat

record 'v PinValue =
  pv_pin :: pin_t
  pv_value :: 'v

text \<open>
  The members of an \<^verbatim>\<open>Atomic\<close> that the simulator reads and writes, and the private
  state of the model, of type \<open>'s\<close>.
\<close>

record ('s, 'v, 't) Atomic =
  tL :: 't
  tN :: 't
  inputs :: "'v PinValue list"
  outputs :: "'v PinValue list"
  atomic_state :: 's

text \<open>
  The operations the simulator queues in provisional mode, \<^verbatim>\<open>Graph::graph_op\<close>, and the
  graph: its coupling structure, of type \<open>'g\<close>, the provisional flag and the list of
  pending operations.
\<close>

datatype graph_op =
    ADD_ATOMIC nat
  | REMOVE_ATOMIC nat
  | REMOVE_PIN pin_t
  | CONNECT_PIN_TO_PIN pin_t pin_t
  | DISCONNECT_PIN_FROM_PIN pin_t pin_t
  | CONNECT_PIN_TO_ATOMIC pin_t nat
  | DISCONNECT_PIN_FROM_ATOMIC pin_t nat

record 'g Graph =
  couplings :: 'g
  provisional :: bool
  pending :: "graph_op list"

text \<open>
  The headers \<^verbatim>\<open>adevs/graph.h\<close>, \<^verbatim>\<open>adevs/models.h\<close> and \<^verbatim>\<open>adevs/sched.h\<close> are not among
  the sources.  What the simulator uses of them is a parameter of the model:
  \<^item> the constants \<^verbatim>\<open>adevs_zero\<close>, \<^verbatim>\<open>adevs_inf\<close> and \<^verbatim>\<open>adevs_epsilon\<close> of the time
    type \<open>'t\<close>, whose \<open>+\<close>, \<open>-\<close> and \<open><\<close> are those of its type classes;
  \<^item> the methods of the \<^verbatim>\<open>Graph\<close> that read or change the coupling structure
    (\<^verbatim>\<open>route\<close> fills a list of pairs of a pin and a receiving atomic);
  \<^item> the \<^verbatim>\<open>Schedule\<close>, of type \<open>'q\<close>, with its methods;
  \<^item> the virtual methods of the atomic models, selected by the address of the model.
    \<^verbatim>\<open>isMealyAtomic\<close> tells whether the model is a \<^verbatim>\<open>MealyAtomic\<close>; the output
    functions are handed the list \<^verbatim>\<open>outputs\<close> of the model to fill.
\<close>

record ('s, 'v, 't, 'g, 'q) Env =
  adevs_zero :: 't
  adevs_inf :: 't
  adevs_epsilon :: 't
  route :: "'g \<Rightarrow> pin_t \<Rightarrow> (pin_t \<times> nat) list"
  get_atomics :: "'g \<Rightarrow> nat list"
  add_atomic :: "nat \<Rightarrow> 'g \<Rightarrow> 'g"
  remove_atomic :: "nat \<Rightarrow> 'g \<Rightarrow> 'g"
  remove_pin :: "pin_t \<Rightarrow> 'g \<Rightarrow> 'g"
  connect_pin :: "pin_t \<Rightarrow> pin_t \<Rightarrow> 'g \<Rightarrow> 'g"
  disconnect_pin :: "pin_t \<Rightarrow> pin_t \<Rightarrow> 'g \<Rightarrow> 'g"
  connect_atomic :: "pin_t \<Rightarrow> nat \<Rightarrow> 'g \<Rightarrow> 'g"
  disconnect_atomic :: "pin_t \<Rightarrow> nat \<Rightarrow> 'g \<Rightarrow> 'g"
  sched_empty :: 'q
  sched_schedule :: "nat \<Rightarrow> 't \<Rightarrow> 'q \<Rightarrow> 'q"
  minPriority :: "'q \<Rightarrow> 't"
  visitImminent :: "'q \<Rightarrow> nat list"
  isMealyAtomic :: "nat \<Rightarrow> bool"
  ta :: "nat \<Rightarrow> 's \<Rightarrow> 't"
  delta_int :: "nat \<Rightarrow> 's \<Rightarrow> 's"
  delta_ext :: "nat \<Rightarrow> 't \<Rightarrow> 'v PinValue list \<Rightarrow> 's \<Rightarrow> 's"
  delta_conf :: "nat \<Rightarrow> 'v PinValue list \<Rightarrow> 's \<Rightarrow> 's"
  output_func :: "nat \<Rightarrow> 's \<Rightarrow> 'v PinValue list \<Rightarrow> 'v PinValue list"
  confluent_output_func ::
    "nat \<Rightarrow> 's \<Rightarrow> 'v PinValue list \<Rightarrow> 'v PinValue list \<Rightarrow> 'v PinValue list"
  external_output_func ::
    "nat \<Rightarrow> 's \<Rightarrow> 't \<Rightarrow> 'v PinValue list \<Rightarrow> 'v PinValue list \<Rightarrow> 'v PinValue list"

text \<open>
  The calls the simulator makes on the models and on its listeners, and every
  \<^verbatim>\<open>inputs.push_back\<close>, are recorded in the order made.  A listener is identified by a
  number.
\<close>

datatype ('v, 't) Event =
    Call_output_func nat
  | Call_confluent_output_func nat "'v PinValue list"
  | Call_external_output_func nat 't "'v PinValue list"
  | Call_delta_int nat
  | Call_delta_conf nat "'v PinValue list"
  | Call_delta_ext nat 't "'v PinValue list"
  | Push_input nat "'v PinValue"
  | Notify_outputEvent nat nat "'v PinValue" 't
  | Notify_inputEvent nat nat "'v PinValue" 't
  | Notify_stateChange nat nat 't

text \<open>\<^verbatim>\<open>adevs::exception(message, model)\<close>\<close>

datatype exception = Exception string nat

text \<open>
  The private members of \<^verbatim>\<open>Simulator\<close>, the atomic models that its pointers reach
  (\<open>heap\<close>) and the record of calls (\<open>trace\<close>).  A \<^verbatim>\<open>std::set\<close> of pointers is the
  ascending list of its elements.
\<close>

record ('s, 'v, 't, 'g, 'q) Simulator =
  graph :: "'g Graph"
  listeners :: "nat list"
  external_input :: "'v PinValue list"
  active :: "nat list"
  sched :: 'q
  tNext :: 't
  heap :: "nat \<Rightarrow> ('s, 'v, 't) Atomic"
  trace :: "('v, 't) Event list"

text \<open>\<^verbatim>\<open>std::set::insert\<close> on the ascending list.\<close>

fun set_insert :: "nat \<Rightarrow> nat list \<Rightarrow> nat list" where
  "set_insert x [] = [x]"
| "set_insert x (y # ys) =
     (if x < y then x # y # ys else if x = y then y # ys else y # set_insert x ys)"

subsection \<open>injectInput, clearInjectedInput, setNextTime\<close>

definition injectInput ::
  "('s, 'v, 't, 'g, 'q) Simulator \<Rightarrow> 'v PinValue \<Rightarrow> ('s, 'v, 't, 'g, 'q) Simulator" where
  "injectInput s x = s\<lparr>external_input := external_input s @ [x]\<rparr>"

definition clearInjectedInput ::
  "('s, 'v, 't, 'g, 'q) Simulator \<Rightarrow> ('s, 'v, 't, 'g, 'q) Simulator" where
  "clearInjectedInput s = s\<lparr>external_input := []\<rparr>"

definition setNextTime ::
  "('s, 'v, 't, 'g, 'q) Simulator \<Rightarrow> 't \<Rightarrow> ('s, 'v, 't, 'g, 'q) Simulator" where
  "setNextTime s t = s\<lparr>tNext := t\<rparr>"

subsection \<open>computeNextOutput\<close>

text \<open>\<^verbatim>\<open>for (auto model : active) { model->outputs.clear(); model->inputs.clear(); }
  active.clear();\<close>\<close>

definition undo_prior ::
  "('s, 'v, 't, 'g, 'q) Simulator \<Rightarrow> ('s, 'v, 't, 'g, 'q) Simulator" where
  "undo_prior s =
     s\<lparr>heap := (\<lambda>model. if model \<in> set (active s)
                          then (heap s model)\<lparr>outputs := [], inputs := []\<rparr>
                          else heap s model),
       active := []\<rparr>"

text \<open>\<^verbatim>\<open>consumer.second->inputs.push_back(x)\<close>\<close>

definition push_input ::
  "nat \<Rightarrow> 'v PinValue \<Rightarrow> ('s, 'v, 't, 'g, 'q) Simulator \<Rightarrow> ('s, 'v, 't, 'g, 'q) Simulator" where
  "push_input c x s =
     s\<lparr>heap := (heap s)(c := (heap s c)\<lparr>inputs := inputs (heap s c) @ [x]\<rparr>),
       trace := trace s @ [Push_input c x]\<rparr>"

text \<open>
  The loop \<^verbatim>\<open>for (auto consumer : input)\<close> as it stands for the injected input and
  for the output of the Moore models: a Mealy consumer goes into \<^verbatim>\<open>pending_active\<close>,
  any other into \<^verbatim>\<open>active\<close>, and the value \<open>v\<close> is pushed with the pin of the consumer.
  The pair is the simulator and the local set \<^verbatim>\<open>pending_active\<close>.
\<close>

fun deliver ::
  "('s, 'v, 't, 'g, 'q) Env \<Rightarrow> 'v \<Rightarrow> (pin_t \<times> nat) list \<Rightarrow>
     ('s, 'v, 't, 'g, 'q) Simulator \<times> nat list \<Rightarrow> ('s, 'v, 't, 'g, 'q) Simulator \<times> nat list" where
  "deliver E v [] (s, pending_active) = (s, pending_active)"
| "deliver E v ((p, c) # consumers) (s, pending_active) =
     (if isMealyAtomic E c
      then deliver E v consumers
             (push_input c \<lparr>pv_pin = p, pv_value = v\<rparr> s, set_insert c pending_active)
      else deliver E v consumers
             (push_input c \<lparr>pv_pin = p, pv_value = v\<rparr> (s\<lparr>active := set_insert c (active s)\<rparr>),
              pending_active))"

text \<open>\<^verbatim>\<open>for (auto y : external_input) { x.value = y.value; graph->route(y.pin, input); ... }\<close>\<close>

fun route_external ::
  "('s, 'v, 't, 'g, 'q) Env \<Rightarrow> 'v PinValue list \<Rightarrow>
     ('s, 'v, 't, 'g, 'q) Simulator \<times> nat list \<Rightarrow> ('s, 'v, 't, 'g, 'q) Simulator \<times> nat list" where
  "route_external E [] sp = sp"
| "route_external E (y # ys) (s, pending_active) =
     route_external E ys
       (deliver E (pv_value y) (route E (couplings (graph s)) (pv_pin y)) (s, pending_active))"

text \<open>\<^verbatim>\<open>for (auto listener : listeners) listener->outputEvent(*model, y, tNext);\<close>\<close>

definition notify_output ::
  "nat \<Rightarrow> 'v PinValue \<Rightarrow> ('s, 'v, 't, 'g, 'q) Simulator \<Rightarrow> ('s, 'v, 't, 'g, 'q) Simulator" where
  "notify_output model y s =
     s\<lparr>trace := trace s @ map (\<lambda>listener. Notify_outputEvent listener model y (tNext s))
                            (listeners s)\<rparr>"

text \<open>\<^verbatim>\<open>for (auto y : model->outputs)\<close> of a Moore model.\<close>

fun route_outputs ::
  "('s, 'v, 't, 'g, 'q) Env \<Rightarrow> nat \<Rightarrow> 'v PinValue list \<Rightarrow>
     ('s, 'v, 't, 'g, 'q) Simulator \<times> nat list \<Rightarrow> ('s, 'v, 't, 'g, 'q) Simulator \<times> nat list" where
  "route_outputs E model [] sp = sp"
| "route_outputs E model (y # ys) (s, pending_active) =
     route_outputs E model ys
       (deliver E (pv_value y) (route E (couplings (graph s)) (pv_pin y))
          (notify_output model y s, pending_active))"

text \<open>\<^verbatim>\<open>model->output_func(model->outputs)\<close>\<close>

definition call_output_func ::
  "('s, 'v, 't, 'g, 'q) Env \<Rightarrow> nat \<Rightarrow> ('s, 'v, 't, 'g, 'q) Simulator \<Rightarrow>
     ('s, 'v, 't, 'g, 'q) Simulator" where
  "call_output_func E model s =
     s\<lparr>heap := (heap s)(model := (heap s model)
          \<lparr>outputs := output_func E model (atomic_state (heap s model)) (outputs (heap s model))\<rparr>),
       trace := trace s @ [Call_output_func model]\<rparr>"

text \<open>\<^verbatim>\<open>for (auto model : imm)\<close>: a Mealy model waits in \<^verbatim>\<open>pending_active\<close>; a Moore model
  becomes active, its output is computed and routed.\<close>

fun imminent_outputs ::
  "('s, 'v, 't, 'g, 'q) Env \<Rightarrow> nat list \<Rightarrow>
     ('s, 'v, 't, 'g, 'q) Simulator \<times> nat list \<Rightarrow> ('s, 'v, 't, 'g, 'q) Simulator \<times> nat list" where
  "imminent_outputs E [] sp = sp"
| "imminent_outputs E (model # imm) (s, pending_active) =
     (if isMealyAtomic E model
      then imminent_outputs E imm (s, set_insert model pending_active)
      else
        (let s1 = call_output_func E model (s\<lparr>active := set_insert model (active s)\<rparr>)
         in imminent_outputs E imm
              (route_outputs E model (outputs (heap s1 model)) (s1, pending_active))))"

text \<open>The part of \<^verbatim>\<open>computeNextOutput\<close> before \<^verbatim>\<open>while (!pending_active.empty())\<close>.\<close>

definition moore_outputs ::
  "('s, 'v, 't, 'g, 'q) Env \<Rightarrow> ('s, 'v, 't, 'g, 'q) Simulator \<Rightarrow>
     ('s, 'v, 't, 'g, 'q) Simulator \<times> nat list" where
  "moore_outputs E s =
     (let (s1, pending_active) = route_external E (external_input s) (undo_prior s, []);
          s2 = s1\<lparr>external_input := []\<rparr>
      in if minPriority E (sched s2) = tNext s2
         then imminent_outputs E (visitImminent E (sched s2)) (s2, pending_active)
         else (s2, pending_active))"

text \<open>
  The consumer loop under \<^verbatim>\<open>while (!pending_active.empty())\<close>: a Mealy consumer that
  is already active ends the call with an exception that names the model whose output is
  being routed.
\<close>

fun deliver_mealy ::
  "('s, 'v, 't, 'g, 'q) Env \<Rightarrow> nat \<Rightarrow> 'v \<Rightarrow> (pin_t \<times> nat) list \<Rightarrow>
     ('s, 'v, 't, 'g, 'q) Simulator \<times> nat list \<Rightarrow>
     (exception \<times> ('s, 'v, 't, 'g, 'q) Simulator) + (('s, 'v, 't, 'g, 'q) Simulator \<times> nat list)" where
  "deliver_mealy E model v [] (s, pending_active) = Inr (s, pending_active)"
| "deliver_mealy E model v ((p, c) # consumers) (s, pending_active) =
     (if isMealyAtomic E c
      then (if c \<in> set (active s)
            then Inl (Exception ''Feedback loop of Mealy models is illegal'' model, s)
            else deliver_mealy E model v consumers
                   (push_input c \<lparr>pv_pin = p, pv_value = v\<rparr> s, set_insert c pending_active))
      else deliver_mealy E model v consumers
             (push_input c \<lparr>pv_pin = p, pv_value = v\<rparr> (s\<lparr>active := set_insert c (active s)\<rparr>),
              pending_active))"

fun route_outputs_mealy ::
  "('s, 'v, 't, 'g, 'q) Env \<Rightarrow> nat \<Rightarrow> 'v PinValue list \<Rightarrow>
     ('s, 'v, 't, 'g, 'q) Simulator \<times> nat list \<Rightarrow>
     (exception \<times> ('s, 'v, 't, 'g, 'q) Simulator) + (('s, 'v, 't, 'g, 'q) Simulator \<times> nat list)" where
  "route_outputs_mealy E model [] sp = Inr sp"
| "route_outputs_mealy E model (y # ys) (s, pending_active) =
     (case deliver_mealy E model (pv_value y) (route E (couplings (graph s)) (pv_pin y))
             (notify_output model y s, pending_active) of
        Inl e \<Rightarrow> Inl e
      | Inr sp \<Rightarrow> route_outputs_mealy E model ys sp)"

text \<open>\<^verbatim>\<open>model->confluent_output_func(model->inputs, model->outputs)\<close> and
  \<^verbatim>\<open>model->external_output_func(tNext - model->tL, model->inputs, model->outputs)\<close>\<close>

definition call_confluent_output_func ::
  "('s, 'v, 't, 'g, 'q) Env \<Rightarrow> nat \<Rightarrow> ('s, 'v, 't, 'g, 'q) Simulator \<Rightarrow>
     ('s, 'v, 't, 'g, 'q) Simulator" where
  "call_confluent_output_func E model s =
     s\<lparr>heap := (heap s)(model := (heap s model)
          \<lparr>outputs := confluent_output_func E model (atomic_state (heap s model))
                        (inputs (heap s model)) (outputs (heap s model))\<rparr>),
       trace := trace s @ [Call_confluent_output_func model (inputs (heap s model))]\<rparr>"

definition call_external_output_func ::
  "('s, 'v, 't::minus, 'g, 'q) Env \<Rightarrow> nat \<Rightarrow> ('s, 'v, 't, 'g, 'q) Simulator \<Rightarrow>
     ('s, 'v, 't, 'g, 'q) Simulator" where
  "call_external_output_func E model s =
     s\<lparr>heap := (heap s)(model := (heap s model)
          \<lparr>outputs := external_output_func E model (atomic_state (heap s model))
                        (tNext s - tL (heap s model)) (inputs (heap s model))
                        (outputs (heap s model))\<rparr>),
       trace := trace s @ [Call_external_output_func model (tNext s - tL (heap s model))
                             (inputs (heap s model))]\<rparr>"

text \<open>
  One turn of \<^verbatim>\<open>while (!pending_active.empty())\<close>: the first model of the set leaves it
  and becomes active, its output is computed, as an internal, a confluent or an external
  event (\<open>call_mealy_output\<close>), and routed.
\<close>

definition call_mealy_output ::
  "('s, 'v, 't::minus, 'g, 'q) Env \<Rightarrow> nat \<Rightarrow> ('s, 'v, 't, 'g, 'q) Simulator \<Rightarrow>
     ('s, 'v, 't, 'g, 'q) Simulator" where
  "call_mealy_output E model s =
     (if inputs (heap s model) = [] \<and> tN (heap s model) = tNext s
      then call_output_func E model s
      else if tN (heap s model) = tNext s
      then call_confluent_output_func E model s
      else call_external_output_func E model s)"

definition mealy_output ::
  "('s, 'v, 't::minus, 'g, 'q) Env \<Rightarrow> ('s, 'v, 't, 'g, 'q) Simulator \<times> nat list \<Rightarrow>
     (exception \<times> ('s, 'v, 't, 'g, 'q) Simulator) + (('s, 'v, 't, 'g, 'q) Simulator \<times> nat list)" where
  "mealy_output E sp =
     (let model = hd (snd sp);
          pending_active = removeAll model (snd sp);
          s1 = (fst sp)\<lparr>active := set_insert model (active (fst sp))\<rparr>;
          s2 = call_mealy_output E model s1
      in route_outputs_mealy E model (outputs (heap s2 model)) (s2, pending_active))"

partial_function (option) mealy_outputs ::
  "('s, 'v, 't::minus, 'g, 'q) Env \<Rightarrow> ('s, 'v, 't, 'g, 'q) Simulator \<times> nat list \<Rightarrow>
     ((exception \<times> ('s, 'v, 't, 'g, 'q) Simulator) + ('s, 'v, 't, 'g, 'q) Simulator) option" where
  "mealy_outputs E sp =
     (if snd sp = [] then Some (Inr (fst sp))
      else (case mealy_output E sp of
              Inl e \<Rightarrow> Some (Inl e)
            | Inr sp1 \<Rightarrow> mealy_outputs E sp1))"

definition computeNextOutput ::
  "('s, 'v, 't::minus, 'g, 'q) Env \<Rightarrow> ('s, 'v, 't, 'g, 'q) Simulator \<Rightarrow>
     ((exception \<times> ('s, 'v, 't, 'g, 'q) Simulator) + ('s, 'v, 't, 'g, 'q) Simulator) option" where
  "computeNextOutput E s = mealy_outputs E (moore_outputs E s)"

subsection \<open>schedule\<close>

text \<open>
  \<^verbatim>\<open>Simulator::schedule(model, t)\<close>.  The exception leaves the simulator as it is when
  thrown: \<^verbatim>\<open>tL\<close> and \<^verbatim>\<open>tN\<close> of the model are set, the schedule is not touched.
\<close>

definition schedule ::
  "('s, 'v, 't::{plus,ord}, 'g, 'q) Env \<Rightarrow> nat \<Rightarrow> 't \<Rightarrow> ('s, 'v, 't, 'g, 'q) Simulator \<Rightarrow>
     (exception \<times> ('s, 'v, 't, 'g, 'q) Simulator) + ('s, 'v, 't, 'g, 'q) Simulator" where
  "schedule E model t s =
     (let s1 = s\<lparr>heap := (heap s)(model := (heap s model)\<lparr>tL := t\<rparr>)\<rparr>;
          dt = ta E model (atomic_state (heap s1 model))
      in if dt = adevs_inf E
         then Inr (s1\<lparr>heap := (heap s1)(model := (heap s1 model)\<lparr>tN := adevs_inf E\<rparr>),
                      sched := sched_schedule E model (adevs_inf E) (sched s1)\<rparr>)
         else
           (let s2 = s1\<lparr>heap := (heap s1)(model := (heap s1 model)\<lparr>tN := tL (heap s1 model) + dt\<rparr>)\<rparr>
            in if dt < adevs_zero E
               then Inl (Exception ''Negative time advance'' model, s2)
               else Inr (s2\<lparr>sched := sched_schedule E model (tN (heap s2 model)) (sched s2)\<rparr>)))"

subsection \<open>The constructor\<close>



definition addEventListener ::
  "('s, 'v, 't, 'g, 'q) Simulator \<Rightarrow> nat \<Rightarrow> ('s, 'v, 't, 'g, 'q) Simulator" where
  "addEventListener s listener = s\<lparr>listeners := listeners s @ [listener]\<rparr>"

subsection \<open>computeNextState\<close>

text \<open>\<^verbatim>\<open>for (auto x : model->inputs) for (auto listener : listeners)
  listener->inputEvent(*model, x, tNext);\<close>\<close>

definition notify_inputs ::
  "nat \<Rightarrow> ('s, 'v, 't, 'g, 'q) Simulator \<Rightarrow> ('s, 'v, 't, 'g, 'q) Simulator" where
  "notify_inputs model s =
     s\<lparr>trace := trace s @ concat (map (\<lambda>x. map (\<lambda>listener. Notify_inputEvent listener model x (tNext s))
                                             (listeners s))
                                  (inputs (heap s model)))\<rparr>"

text \<open>The three transitions: \<^verbatim>\<open>model->delta_int()\<close>,
  \<^verbatim>\<open>model->delta_conf(model->inputs); model->inputs.clear()\<close> and
  \<^verbatim>\<open>model->delta_ext(tNext - model->tL, model->inputs); model->inputs.clear()\<close>.\<close>

definition call_delta_int ::
  "('s, 'v, 't, 'g, 'q) Env \<Rightarrow> nat \<Rightarrow> ('s, 'v, 't, 'g, 'q) Simulator \<Rightarrow>
     ('s, 'v, 't, 'g, 'q) Simulator" where
  "call_delta_int E model s =
     s\<lparr>heap := (heap s)(model := (heap s model)
          \<lparr>atomic_state := delta_int E model (atomic_state (heap s model))\<rparr>),
       trace := trace s @ [Call_delta_int model]\<rparr>"

definition call_delta_conf ::
  "('s, 'v, 't, 'g, 'q) Env \<Rightarrow> nat \<Rightarrow> ('s, 'v, 't, 'g, 'q) Simulator \<Rightarrow>
     ('s, 'v, 't, 'g, 'q) Simulator" where
  "call_delta_conf E model s =
     s\<lparr>heap := (heap s)(model := (heap s model)
          \<lparr>atomic_state := delta_conf E model (inputs (heap s model)) (atomic_state (heap s model)),
           inputs := []\<rparr>),
       trace := trace s @ [Call_delta_conf model (inputs (heap s model))]\<rparr>"

definition call_delta_ext ::
  "('s, 'v, 't::minus, 'g, 'q) Env \<Rightarrow> nat \<Rightarrow> ('s, 'v, 't, 'g, 'q) Simulator \<Rightarrow>
     ('s, 'v, 't, 'g, 'q) Simulator" where
  "call_delta_ext E model s =
     s\<lparr>heap := (heap s)(model := (heap s model)
          \<lparr>atomic_state := delta_ext E model (tNext s - tL (heap s model)) (inputs (heap s model))
                             (atomic_state (heap s model)),
           inputs := []\<rparr>),
       trace := trace s @ [Call_delta_ext model (tNext s - tL (heap s model))
                             (inputs (heap s model))]\<rparr>"

text \<open>\<^verbatim>\<open>for (auto listener : listeners) listener->stateChange(*model, tNext);\<close>\<close>

definition notify_state ::
  "nat \<Rightarrow> ('s, 'v, 't, 'g, 'q) Simulator \<Rightarrow> ('s, 'v, 't, 'g, 'q) Simulator" where
  "notify_state model s =
     s\<lparr>trace := trace s @ map (\<lambda>listener. Notify_stateChange listener model (tNext s))
                            (listeners s)\<rparr>"

text \<open>The body of \<^verbatim>\<open>for (auto model : active)\<close> up to the call of \<^verbatim>\<open>schedule\<close>.\<close>

definition transition ::
  "('s, 'v, 't::minus, 'g, 'q) Env \<Rightarrow> nat \<Rightarrow> ('s, 'v, 't, 'g, 'q) Simulator \<Rightarrow>
     ('s, 'v, 't, 'g, 'q) Simulator" where
  "transition E model s =
     (let s1 = notify_inputs model s;
          s2 = (if inputs (heap s1 model) = [] then call_delta_int E model s1
                else if tN (heap s1 model) = tNext s1 then call_delta_conf E model s1
                else call_delta_ext E model s1);
          s3 = notify_state model s2
      in s3\<lparr>heap := (heap s3)(model := (heap s3 model)\<lparr>outputs := []\<rparr>)\<rparr>)"

fun transitions ::
  "('s, 'v, 't::{plus,minus,ord}, 'g, 'q) Env \<Rightarrow> 't \<Rightarrow> nat list \<Rightarrow>
     ('s, 'v, 't, 'g, 'q) Simulator \<Rightarrow>
     (exception \<times> ('s, 'v, 't, 'g, 'q) Simulator) + ('s, 'v, 't, 'g, 'q) Simulator" where
  "transitions E t [] s = Inr s"
| "transitions E t (model # models) s =
     (case schedule E model t (transition E model s) of
        Inl e \<Rightarrow> Inl e
      | Inr s1 \<Rightarrow> transitions E t models s1)"

text \<open>
  \<^verbatim>\<open>while (!pending.empty()) { auto op = pending.front(); pending.pop_front();
  switch (op.op) ... }\<close>, run while the graph is not provisional, so that every method of
  the graph takes effect at once.
\<close>

definition change_couplings ::
  "('g \<Rightarrow> 'g) \<Rightarrow> ('s, 'v, 't, 'g, 'q) Simulator \<Rightarrow> ('s, 'v, 't, 'g, 'q) Simulator" where
  "change_couplings f s = s\<lparr>graph := (graph s)\<lparr>couplings := f (couplings (graph s))\<rparr>\<rparr>"

fun apply_pending ::
  "('s, 'v, 't::{plus,ord}, 'g, 'q) Env \<Rightarrow> 't \<Rightarrow> graph_op list \<Rightarrow>
     ('s, 'v, 't, 'g, 'q) Simulator \<Rightarrow>
     (exception \<times> ('s, 'v, 't, 'g, 'q) Simulator) + ('s, 'v, 't, 'g, 'q) Simulator" where
  "apply_pending E t [] s = Inr s"
| "apply_pending E t (op # ops) s =
     (let s1 = s\<lparr>graph := (graph s)\<lparr>pending := ops\<rparr>\<rparr> in
      case op of
        ADD_ATOMIC model \<Rightarrow>
          (case schedule E model t (change_couplings (add_atomic E model) s1) of
             Inl e \<Rightarrow> Inl e
           | Inr s2 \<Rightarrow> apply_pending E t ops s2)
      | REMOVE_ATOMIC model \<Rightarrow>
          apply_pending E t ops
            (change_couplings (remove_atomic E model)
               (s1\<lparr>sched := sched_schedule E model (adevs_inf E) (sched s1)\<rparr>))
      | REMOVE_PIN p \<Rightarrow> apply_pending E t ops (change_couplings (remove_pin E p) s1)
      | CONNECT_PIN_TO_PIN p0 p1 \<Rightarrow>
          apply_pending E t ops (change_couplings (connect_pin E p0 p1) s1)
      | DISCONNECT_PIN_FROM_PIN p0 p1 \<Rightarrow>
          apply_pending E t ops (change_couplings (disconnect_pin E p0 p1) s1)
      | CONNECT_PIN_TO_ATOMIC p model \<Rightarrow>
          apply_pending E t ops (change_couplings (connect_atomic E p model) s1)
      | DISCONNECT_PIN_FROM_ATOMIC p model \<Rightarrow>
          apply_pending E t ops (change_couplings (disconnect_atomic E p model) s1))"

text \<open>\<^verbatim>\<open>computeNextState\<close> returns \<open>t = tNext + adevs_epsilon\<close>, here beside the
  simulator.\<close>

definition computeNextState ::
  "('s, 'v, 't::{plus,minus,ord}, 'g, 'q) Env \<Rightarrow> ('s, 'v, 't, 'g, 'q) Simulator \<Rightarrow>
     (exception \<times> ('s, 'v, 't, 'g, 'q) Simulator) + (('s, 'v, 't, 'g, 'q) Simulator \<times> 't)" where
  "computeNextState E s =
     (let t = tNext s + adevs_epsilon E in
      case transitions E t (active s) s of
        Inl e \<Rightarrow> Inl e
      | Inr s1 \<Rightarrow>
         (let s2 = s1\<lparr>active := [], graph := (graph s1)\<lparr>provisional := False\<rparr>\<rparr> in
          case apply_pending E t (pending (graph s2)) s2 of
            Inl e \<Rightarrow> Inl e
          | Inr s3 \<Rightarrow>
             (let s4 = s3\<lparr>graph := (graph s3)\<lparr>provisional := True\<rparr>\<rparr>
              in Inr (s4\<lparr>tNext := minPriority E (sched s4)\<rparr>, t))))"

text \<open>\<^verbatim>\<open>execNextEvent() { computeNextOutput(); return computeNextState(); }\<close>\<close>

definition execNextEvent ::
  "('s, 'v, 't::{plus,minus,ord}, 'g, 'q) Env \<Rightarrow> ('s, 'v, 't, 'g, 'q) Simulator \<Rightarrow>
     ((exception \<times> ('s, 'v, 't, 'g, 'q) Simulator) + (('s, 'v, 't, 'g, 'q) Simulator \<times> 't)) option" where
  "execNextEvent E s =
     (case computeNextOutput E s of
        None \<Rightarrow> None
      | Some (Inl e) \<Rightarrow> Some (Inl e)
      | Some (Inr s1) \<Rightarrow> Some (computeNextState E s1))"

subsection \<open>Notions for the properties of the simulator\<close>

text \<open>The simulator as a call leaves it, whether the call returned or threw.\<close>

definition left_by ::
  "(exception \<times> ('s, 'v, 't, 'g, 'q) Simulator) + ('s, 'v, 't, 'g, 'q) Simulator \<Rightarrow>
     ('s, 'v, 't, 'g, 'q) Simulator" where
  "left_by r = (case r of Inl (e, s) \<Rightarrow> s | Inr s \<Rightarrow> s)"

text \<open>An atomic is consistently scheduled when \<open>tN = tL + ta()\<close> or \<open>ta()\<close> is infinite.\<close>

definition scheduled_consistently ::
  "('s, 'v, 't::plus, 'g, 'q) Env \<Rightarrow> nat \<Rightarrow> ('s, 'v, 't) Atomic \<Rightarrow> bool" where
  "scheduled_consistently E model a =
     (tN a = tL a + ta E model (atomic_state a) \<or> ta E model (atomic_state a) = adevs_inf E)"

text \<open>The calls of the three transition functions among the recorded events.\<close>

fun is_transition :: "('v, 't) Event \<Rightarrow> bool" where
  "is_transition (Call_delta_int m) = True"
| "is_transition (Call_delta_conf m xb) = True"
| "is_transition (Call_delta_ext m e xb) = True"
| "is_transition ev = False"

text \<open>The transition that is due for a model in a simulator state: internal without
  input, confluent with input at \<open>tN = tNext\<close>, external with input otherwise.\<close>

definition due_transition ::
  "('s, 'v, 't::minus, 'g, 'q) Simulator \<Rightarrow> nat \<Rightarrow> ('v, 't) Event" where
  "due_transition s m =
     (if inputs (heap s m) = [] then Call_delta_int m
      else if tN (heap s m) = tNext s then Call_delta_conf m (inputs (heap s m))
      else Call_delta_ext m (tNext s - tL (heap s m)) (inputs (heap s m)))"

text \<open>
  The steps of which the routing of \<^verbatim>\<open>computeNextOutput\<close> consists, as conditions on a
  property \<open>P\<close> of the simulator and the set \<^verbatim>\<open>pending_active\<close>: \<open>P\<close> fixes the coupling
  structure \<open>g\<close> and survives the notification of the listeners and the delivery of a
  value to a receiver of \<open>g\<close>.  Before the loop over \<^verbatim>\<open>pending_active\<close> a Mealy receiver
  takes its input unchecked; in the loop it does so only while it is not active.
\<close>

definition routing_invariant ::
  "('s, 'v, 't, 'g, 'q) Env \<Rightarrow> 'g \<Rightarrow> (('s, 'v, 't, 'g, 'q) Simulator \<times> nat list \<Rightarrow> bool) \<Rightarrow> bool" where
  "routing_invariant E g P =
     ((\<forall>s pa. P (s, pa) \<longrightarrow> couplings (graph s) = g)
      \<and> (\<forall>s pa m y. P (s, pa) \<longrightarrow> P (notify_output m y s, pa))
      \<and> (\<forall>s pa q p c v. P (s, pa) \<longrightarrow> (p, c) \<in> set (route E g q) \<longrightarrow> isMealyAtomic E c \<longrightarrow>
            P (push_input c \<lparr>pv_pin = p, pv_value = v\<rparr> s, set_insert c pa))
      \<and> (\<forall>s pa q p c v. P (s, pa) \<longrightarrow> (p, c) \<in> set (route E g q) \<longrightarrow> \<not> isMealyAtomic E c \<longrightarrow>
            P (push_input c \<lparr>pv_pin = p, pv_value = v\<rparr> (s\<lparr>active := set_insert c (active s)\<rparr>), pa)))"

definition mealy_routing_invariant ::
  "('s, 'v, 't, 'g, 'q) Env \<Rightarrow> 'g \<Rightarrow> (('s, 'v, 't, 'g, 'q) Simulator \<times> nat list \<Rightarrow> bool) \<Rightarrow> bool" where
  "mealy_routing_invariant E g P =
     ((\<forall>s pa. P (s, pa) \<longrightarrow> couplings (graph s) = g)
      \<and> (\<forall>s pa m y. P (s, pa) \<longrightarrow> P (notify_output m y s, pa))
      \<and> (\<forall>s pa q p c v. P (s, pa) \<longrightarrow> (p, c) \<in> set (route E g q) \<longrightarrow> isMealyAtomic E c \<longrightarrow>
            c \<notin> set (active s) \<longrightarrow>
            P (push_input c \<lparr>pv_pin = p, pv_value = v\<rparr> s, set_insert c pa))
      \<and> (\<forall>s pa q p c v. P (s, pa) \<longrightarrow> (p, c) \<in> set (route E g q) \<longrightarrow> \<not> isMealyAtomic E c \<longrightarrow>
            P (push_input c \<lparr>pv_pin = p, pv_value = v\<rparr> (s\<lparr>active := set_insert c (active s)\<rparr>), pa)))"

text \<open>The model whose output function an event calls.\<close>

fun output_call_of :: "('v, 't) Event \<Rightarrow> nat option" where
  "output_call_of (Call_output_func m) = Some m"
| "output_call_of (Call_confluent_output_func m xb) = Some m"
| "output_call_of (Call_external_output_func m e xb) = Some m"
| "output_call_of ev = None"

text \<open>The model to whose input list an event appends.\<close>

fun input_receiver :: "('v, 't) Event \<Rightarrow> nat option" where
  "input_receiver (Push_input c x) = Some c"
| "input_receiver ev = None"

text \<open>No Mealy atomic has an input pushed after an event that computes its output.\<close>

fun no_input_after_output :: "('s, 'v, 't, 'g, 'q) Env \<Rightarrow> ('v, 't) Event list \<Rightarrow> bool" where
  "no_input_after_output E [] = True"
| "no_input_after_output E (e # evs) =
     ((case output_call_of e of
         None \<Rightarrow> True
       | Some m \<Rightarrow> isMealyAtomic E m \<longrightarrow> Some m \<notin> set (map input_receiver evs))
      \<and> no_input_after_output E evs)"

text \<open>The values that a sequence of events appends to the input list of a model.\<close>

fun inputs_pushed :: "nat \<Rightarrow> ('v, 't) Event list \<Rightarrow> 'v PinValue list" where
  "inputs_pushed c [] = []"
| "inputs_pushed c (Push_input c' x # evs) =
     (if c' = c then x # inputs_pushed c evs else inputs_pushed c evs)"
| "inputs_pushed c (e # evs) = inputs_pushed c evs"

text \<open>What no step of \<^verbatim>\<open>computeNextOutput\<close> changes: the graph, the listeners, the
  schedule, \<^verbatim>\<open>tNext\<close>, and of every atomic \<^verbatim>\<open>tL\<close>, \<^verbatim>\<open>tN\<close> and the private state.\<close>

definition same_frame ::
  "('s, 'v, 't, 'g, 'q) Simulator \<Rightarrow> ('s, 'v, 't, 'g, 'q) Simulator \<Rightarrow> bool" where
  "same_frame s0 s =
     (graph s = graph s0 \<and> listeners s = listeners s0 \<and> sched s = sched s0
      \<and> tNext s = tNext s0
      \<and> (\<forall>m. tL (heap s m) = tL (heap s0 m) \<and> tN (heap s m) = tN (heap s0 m)
               \<and> atomic_state (heap s m) = atomic_state (heap s0 m)))"

text \<open>The inputs pushed for the injected values: every receiver of the pin of an injected
  value gets the value with the pin of the receiver.\<close>

definition injected_pushes ::
  "('s, 'v, 't, 'g, 'q) Env \<Rightarrow> 'g \<Rightarrow> 'v PinValue list \<Rightarrow> ('v, 't) Event list" where
  "injected_pushes E g ys =
     concat (map (\<lambda>y. map (\<lambda>(p, c). Push_input c \<lparr>pv_pin = p, pv_value = pv_value y\<rparr>)
                          (route E g (pv_pin y))) ys)"

text \<open>The Mealy atomics that the routing of a coupling structure can reach.\<close>

definition mealy_receivers :: "('s, 'v, 't, 'g, 'q) Env \<Rightarrow> 'g \<Rightarrow> nat set" where
  "mealy_receivers E g = {c. isMealyAtomic E c \<and> (\<exists>q p. (p, c) \<in> set (route E g q))}"

text \<open>The simulator and the set \<^verbatim>\<open>pending_active\<close> after \<open>n\<close> turns of
  \<^verbatim>\<open>while (!pending_active.empty())\<close>; \<open>None\<close> when the loop has ended before, by
  \<^verbatim>\<open>return\<close> or by \<^verbatim>\<open>throw\<close>.\<close>

fun loop_state ::
  "('s, 'v, 't::minus, 'g, 'q) Env \<Rightarrow> nat \<Rightarrow> ('s, 'v, 't, 'g, 'q) Simulator \<times> nat list \<Rightarrow>
     (('s, 'v, 't, 'g, 'q) Simulator \<times> nat list) option" where
  "loop_state E 0 sp = Some sp"
| "loop_state E (Suc n) sp =
     (if snd sp = [] then None
      else (case mealy_output E sp of
              Inl e \<Rightarrow> None
            | Inr sp1 \<Rightarrow> loop_state E n sp1))"

text \<open>Model \<open>a\<close> emits to model \<open>b\<close> in the call of \<^verbatim>\<open>computeNextOutput\<close> on \<open>s\<close>: in a turn
  of the loop that computes the output of \<open>a\<close>, the output list of \<open>a\<close> then holds a value
  on a pin that the coupling structure routes to \<open>b\<close>.\<close>

definition emits_to ::
  "('s, 'v, 't::minus, 'g, 'q) Env \<Rightarrow> ('s, 'v, 't, 'g, 'q) Simulator \<Rightarrow> nat \<Rightarrow> nat \<Rightarrow> bool" where
  "emits_to E s a b =
     (\<forall>n sp. loop_state E n (moore_outputs E s) = Some sp \<longrightarrow> snd sp \<noteq> [] \<longrightarrow> hd (snd sp) = a \<longrightarrow>
        (\<exists>y\<in>set (outputs (heap (call_mealy_output E a
                                  ((fst sp)\<lparr>active := set_insert a (active (fst sp))\<rparr>)) a)).
           b \<in> snd ` set (route E (couplings (graph s)) (pv_pin y))))"

text \<open>Model \<open>a\<close> always sends to model \<open>b\<close>: whichever output function of \<open>a\<close> is called,
  in whatever state and on whatever input, it leaves a value on a pin that the coupling
  structure routes to \<open>b\<close>.\<close>

definition sends_to :: "('s, 'v, 't, 'g, 'q) Env \<Rightarrow> 'g \<Rightarrow> nat \<Rightarrow> nat \<Rightarrow> bool" where
  "sends_to E g a b =
     ((\<forall>st yb. \<exists>y\<in>set (output_func E a st yb). b \<in> snd ` set (route E g (pv_pin y)))
      \<and> (\<forall>st xb yb. \<exists>y\<in>set (confluent_output_func E a st xb yb).
             b \<in> snd ` set (route E g (pv_pin y)))
      \<and> (\<forall>st dt xb yb. \<exists>y\<in>set (external_output_func E a st dt xb yb).
             b \<in> snd ` set (route E g (pv_pin y))))"

subsection \<open>A system to run\<close>

text \<open>
  Modelled from the spec: the \<^verbatim>\<open>Schedule\<close> of \<^verbatim>\<open>adevs/sched.h\<close>, which is not among
  the sources.  ``\<^verbatim>\<open>schedule(atomic, t)\<close>: insert or update the key of an atomic;
  \<^verbatim>\<open>minPriority()\<close>: peek smallest key, returns +infinity if empty;
  \<^verbatim>\<open>visitImminent()\<close>: all atomics whose key equals \<^verbatim>\<open>minPriority()\<close>.''  Here it is a list
  of atomics with their keys.
\<close>

definition list_schedule :: "nat \<Rightarrow> int \<Rightarrow> (nat \<times> int) list \<Rightarrow> (nat \<times> int) list" where
  "list_schedule m t q = filter (\<lambda>(m', k). m' \<noteq> m) q @ [(m, t)]"

definition list_minPriority :: "int \<Rightarrow> (nat \<times> int) list \<Rightarrow> int" where
  "list_minPriority infinity q = fold min (map snd q) infinity"

definition list_visitImminent :: "int \<Rightarrow> (nat \<times> int) list \<Rightarrow> nat list" where
  "list_visitImminent infinity q = map fst (filter (\<lambda>(m, k). k = list_minPriority infinity q) q)"

text \<open>
  Modelled from the spec: the coupling structure of the \<^verbatim>\<open>Graph\<close> of \<^verbatim>\<open>adevs/graph.h\<close>,
  which is not among the sources: the atomics and the edges from a pin to a pin of a
  receiving atomic.  \<^verbatim>\<open>route\<close> yields the receivers of a pin.
\<close>

type_synonym edges = "nat list \<times> (pin_t \<times> pin_t \<times> nat) list"

definition edges_route :: "edges \<Rightarrow> pin_t \<Rightarrow> (pin_t \<times> nat) list" where
  "edges_route g p = map snd (filter (\<lambda>(p0, r). p0 = p) (snd g))"

text \<open>
  The time type is \<^verbatim>\<open>int\<close>, with \<open>2147483647\<close> for infinity and epsilon \<open>0\<close>.  The
  private state of a model counts its internal, external and confluent transitions.
  Every model has time advance 1, but model 3 has time advance \<open>-1\<close> and model 4 is
  passive.  Models 5 and 6 are Mealy models.  Model \<open>m\<close> sends on pin \<open>10 * m\<close>: the value
  1 from \<^verbatim>\<open>output_func\<close>, the number of its inputs from the two Mealy output functions.
\<close>

definition sys :: "(nat \<times> nat \<times> nat, nat, int, edges, (nat \<times> int) list) Env" where
  "sys =
     \<lparr>adevs_zero = 0, adevs_inf = 2147483647, adevs_epsilon = 0,
      route = edges_route,
      get_atomics = fst,
      add_atomic = (\<lambda>m g. (fst g @ [m], snd g)),
      remove_atomic = (\<lambda>m g. (removeAll m (fst g), filter (\<lambda>(p0, p1, c). c \<noteq> m) (snd g))),
      remove_pin = (\<lambda>p g. (fst g, filter (\<lambda>(p0, p1, c). p0 \<noteq> p \<and> p1 \<noteq> p) (snd g))),
      connect_pin = (\<lambda>p0 p1 g. g),
      disconnect_pin = (\<lambda>p0 p1 g. g),
      connect_atomic = (\<lambda>p m g. (fst g, snd g @ [(p, p, m)])),
      disconnect_atomic = (\<lambda>p m g. (fst g, filter (\<lambda>e. e \<noteq> (p, p, m)) (snd g))),
      sched_empty = [],
      sched_schedule = list_schedule,
      minPriority = list_minPriority 2147483647,
      visitImminent = list_visitImminent 2147483647,
      isMealyAtomic = (\<lambda>m. m = 5 \<or> m = 6),
      ta = (\<lambda>m st. if m = 3 then - 1 else if m = 4 then 2147483647 else 1),
      delta_int = (\<lambda>m (i, e, c). (i + 1, e, c)),
      delta_ext = (\<lambda>m dt xb (i, e, c). (i, e + 1, c)),
      delta_conf = (\<lambda>m xb (i, e, c). (i, e, c + 1)),
      output_func = (\<lambda>m st yb. yb @ [\<lparr>pv_pin = 10 * m, pv_value = 1\<rparr>]),
      confluent_output_func = (\<lambda>m st xb yb. yb @ [\<lparr>pv_pin = 10 * m, pv_value = length xb\<rparr>]),
      external_output_func = (\<lambda>m st dt xb yb. yb @ [\<lparr>pv_pin = 10 * m, pv_value = length xb\<rparr>])\<rparr>"

definition fresh :: "(nat \<times> nat \<times> nat, nat, int) Atomic" where
  "fresh = \<lparr>tL = 0, tN = 0, inputs = [], outputs = [], atomic_state = (0, 0, 0)\<rparr>"

text \<open>Scenario S2: model 1 sends to model 2, both with time advance 1.\<close>

definition graph_S2 :: "edges Graph" where
  "graph_S2 = \<lparr>couplings = ([1, 2], [(10, 21, 2)]), provisional = False, pending = []\<rparr>"

text \<open>The simulator that the constructor builds for scenario S2, with listener 0, and
  that simulator after \<^verbatim>\<open>computeNextOutput\<close>.\<close>

definition sim_S2 :: "(nat \<times> nat \<times> nat, nat, int, edges, (nat \<times> int) list) Simulator" where
  "sim_S2 =
     \<lparr>graph = graph_S2\<lparr>provisional := True\<rparr>, listeners = [0], external_input = [],
      active = [], sched = [(1, 1), (2, 1)], tNext = 1,
      heap = (\<lambda>m. fresh\<lparr>tN := 1\<rparr>), trace = []\<rparr>"

definition sim_S2_output :: "(nat \<times> nat \<times> nat, nat, int, edges, (nat \<times> int) list) Simulator" where
  "sim_S2_output =
     sim_S2\<lparr>active := [1, 2],
            heap := (\<lambda>m. if m = 1 then fresh\<lparr>tN := 1, outputs := [\<lparr>pv_pin = 10, pv_value = 1\<rparr>]\<rparr>
                        else if m = 2
                        then fresh\<lparr>tN := 1, inputs := [\<lparr>pv_pin = 21, pv_value = 1\<rparr>],
                                   outputs := [\<lparr>pv_pin = 20, pv_value = 1\<rparr>]\<rparr>
                        else fresh\<lparr>tN := 1\<rparr>),
            trace := [Call_output_func 1, Notify_outputEvent 0 1 \<lparr>pv_pin = 10, pv_value = 1\<rparr> 1,
                      Push_input 2 \<lparr>pv_pin = 21, pv_value = 1\<rparr>,
                      Call_output_func 2, Notify_outputEvent 0 2 \<lparr>pv_pin = 20, pv_value = 1\<rparr> 1]\<rparr>"

text \<open>Scenario S3: the Mealy models 5 and 6 send to each other.\<close>

definition graph_S3 :: "edges Graph" where
  "graph_S3 = \<lparr>couplings = ([5, 6], [(50, 61, 6), (60, 51, 5)]), provisional = False, pending = []\<rparr>"

definition sim_S3 :: "(nat \<times> nat \<times> nat, nat, int, edges, (nat \<times> int) list) Simulator" where
  "sim_S3 =
     \<lparr>graph = graph_S3\<lparr>provisional := True\<rparr>, listeners = [0], external_input = [],
      active = [], sched = [(5, 1), (6, 1)], tNext = 1,
      heap = (\<lambda>m. fresh\<lparr>tN := 1\<rparr>), trace = []\<rparr>"

text \<open>Model 2 with an input at time 1 while its own next event is at time 3.\<close>

definition sim_early_input :: "(nat \<times> nat \<times> nat, nat, int, edges, (nat \<times> int) list) Simulator" where
  "sim_early_input =
     sim_S2\<lparr>active := [2], sched := [(1, 5), (2, 3)],
            heap := (\<lambda>m. if m = 2
                        then fresh\<lparr>tN := 3, inputs := [\<lparr>pv_pin = 21, pv_value = 7\<rparr>]\<rparr>
                        else fresh\<lparr>tN := 5\<rparr>)\<rparr>"

text \<open>Models 1, 2 and the Mealy model 5, all with their next event at time 1; pin 7 leads
  to model 5, which sends to model 2.  The value 9 has been injected on pin 7.\<close>

definition graph_inject :: "edges Graph" where
  "graph_inject =
     \<lparr>couplings = ([1, 2, 5], [(7, 51, 5), (50, 21, 2)]), provisional = True, pending = []\<rparr>"

definition sim_inject :: "(nat \<times> nat \<times> nat, nat, int, edges, (nat \<times> int) list) Simulator" where
  "sim_inject =
     \<lparr>graph = graph_inject, listeners = [0], external_input = [],
      active = [], sched = [(1, 1), (2, 1), (5, 1)], tNext = 1,
      heap = (\<lambda>m. fresh\<lparr>tN := 1\<rparr>), trace = []\<rparr>"

text \<open>The Moore model 1 sends to the Mealy model 5, which sends to the Moore model 2; all
  three have their next event at time 1.\<close>

definition graph_chain :: "edges Graph" where
  "graph_chain =
     \<lparr>couplings = ([1, 2, 5], [(10, 51, 5), (50, 21, 2)]), provisional = True, pending = []\<rparr>"

definition sim_chain :: "(nat \<times> nat \<times> nat, nat, int, edges, (nat \<times> int) list) Simulator" where
  "sim_chain =
     \<lparr>graph = graph_chain, listeners = [0], external_input = [],
      active = [], sched = [(1, 1), (2, 1), (5, 1)], tNext = 1,
      heap = (\<lambda>m. fresh\<lparr>tN := 1\<rparr>), trace = []\<rparr>"

text \<open>Scenario S3 among other models: the Mealy models 5 and 6 send to each other, model
  5 also sends to the Moore model 2, and the Moore models 1 and 2 are imminent as well.\<close>

definition graph_S3_wide :: "edges Graph" where
  "graph_S3_wide =
     \<lparr>couplings = ([1, 2, 5, 6], [(50, 61, 6), (50, 21, 2), (60, 51, 5)]),
      provisional = True, pending = []\<rparr>"

definition sim_S3_wide :: "(nat \<times> nat \<times> nat, nat, int, edges, (nat \<times> int) list) Simulator" where
  "sim_S3_wide =
     \<lparr>graph = graph_S3_wide, listeners = [0], external_input = [],
      active = [], sched = [(1, 1), (2, 1), (5, 1), (6, 1)], tNext = 1,
      heap = (\<lambda>m. fresh\<lparr>tN := 1\<rparr>), trace = []\<rparr>"

text \<open>The same system with Mealy models that relay: they send when they have input, and
  their \<^verbatim>\<open>output_func\<close>, which is called when they have none, sends nothing.\<close>

definition sys_relay :: "(nat \<times> nat \<times> nat, nat, int, edges, (nat \<times> int) list) Env" where
  "sys_relay = sys\<lparr>output_func := (\<lambda>m st yb. yb)\<rparr>"

subsection \<open>Facts about the clock\<close>

lemma Time_eq_iff: "Time_eq a b \<longleftrightarrow> a = (b :: 't Time)"
  by (cases a, cases b) (simp add: Time_eq_def)

lemma Time_less_irrefl: "\<not> Time_less a (a :: ('t::order) Time)"
  by (simp add: Time_less_def)

lemma Time_less_trans:
  "Time_less a b \<Longrightarrow> Time_less b c \<Longrightarrow> Time_less a (c :: ('t::order) Time)"
  unfolding Time_less_def by (auto intro: less_trans)

lemma Time_less_linear:
  "Time_less a b \<or> a = b \<or> Time_less b (a :: ('t::linorder) Time)"
  by (cases a, cases b) (auto simp: Time_less_def)

lemma Time_greater_iff: "Time_greater a b \<longleftrightarrow> Time_less b (a :: ('t::linorder) Time)"
  using Time_less_linear [of a b] Time_less_trans [of a b a] Time_less_irrefl [of a]
  by (auto simp: Time_greater_def Time_le_def Time_eq_iff Time_less_irrefl)

lemma Time_ge_trans:
  "Time_ge b a \<Longrightarrow> Time_ge c b \<Longrightarrow> Time_ge c (a :: ('t::linorder) Time)"
  unfolding Time_ge_def
  using Time_less_linear [of a b] Time_less_trans [of c a b]
  by auto

text \<open>
  Claim C9.  For all super-dense times \<open>(t, c)\<close> and \<open>(t', c')\<close> the addition operator
  returns \<open>(t, c + c')\<close> when \<open>t' = 0\<close> and \<open>(t + t', 0)\<close> when \<open>t' > 0\<close> (the counter
  is added in 32-bit unsigned arithmetic); the operation is not commutative:
  \<open>(1, 0) + (0, 1) = (1, 1)\<close> whereas \<open>(0, 1) + (1, 0) = (1, 0)\<close>.
\<close>

theorem Time_plus_advance:
  fixes t t' :: "'t::{zero,plus,order}"
  shows "(t' = 0 \<longrightarrow> Time_plus (mkTime t c) (mkTime t' c') = mkTime t (c + c'))
       \<and> (0 < t' \<longrightarrow> Time_plus (mkTime t c) (mkTime t' c') = mkTime (t + t') 0)
       \<and> (\<exists>a b :: real Time. Time_plus a b \<noteq> Time_plus b a)"
proof -
  have "Time_plus (mkTime 1 0) (mkTime 0 1) \<noteq> Time_plus (mkTime 0 1) (mkTime (1::real) 0)"
    by (simp add: Time_plus_def mkTime_def)
  then have "\<exists>a b :: real Time. Time_plus a b \<noteq> Time_plus b a"
    by blast
  then show ?thesis
    by (auto simp: Time_plus_def mkTime_def add.commute)
qed

theorem Time_plus_advance_witness:
  "Time_plus (mkTime (5::real) 2) (mkTime 0 3) = mkTime 5 5
   \<and> Time_plus (mkTime (5::real) 2) (mkTime 4 3) = mkTime 9 0"
  using Time_plus_advance [of "0::real" 5 2 3] Time_plus_advance [of "4::real" 5 2 3]
  by simp

subsection \<open>Time-ordered queues\<close>

lemma takeWhile_dropWhile_sorted:
  assumes "sorted_wrt R xs" and "\<And>a b. R a b \<Longrightarrow> \<not> P a \<Longrightarrow> \<not> P b"
  shows "takeWhile P xs = filter P xs \<and> dropWhile P xs = filter (\<lambda>x. \<not> P x) xs"
  using assms(1)
proof (induction xs)
  case Nil
  then show ?case by simp
next
  case (Cons x xs)
  show ?case
  proof (cases "P x")
    case True
    with Cons show ?thesis by simp
  next
    case False
    with Cons.prems assms(2) have "\<forall>y\<in>set xs. \<not> P y" by auto
    with False show ?thesis by (simp add: filter_empty_conv filter_id_conv)
  qed
qed

lemma takeWhile_dropWhile_rev_sorted:
  assumes "sorted_wrt R xs" and "\<And>a b. R a b \<Longrightarrow> P a \<Longrightarrow> P b"
  shows "takeWhile P (rev xs) = rev (filter P xs) \<and>
         dropWhile P (rev xs) = rev (filter (\<lambda>x. \<not> P x) xs)"
proof -
  have "sorted_wrt (\<lambda>a b. R b a) (rev xs)"
    using assms(1) by (simp add: sorted_wrt_rev)
  moreover have "\<And>a b. R b a \<Longrightarrow> \<not> P a \<Longrightarrow> \<not> P b"
    using assms(2) by blast
  ultimately show ?thesis
    using takeWhile_dropWhile_sorted [of "\<lambda>a b. R b a" "rev xs" P]
    by (simp add: rev_filter)
qed

lemma Time_le_iff: "Time_le a b \<longleftrightarrow> \<not> Time_less b (a :: ('t::linorder) Time)"
  using Time_less_linear [of a b] Time_less_trans [of a b a] Time_less_irrefl [of a]
  by (auto simp: Time_le_def Time_eq_iff)

lemma Time_le_less_trans:
  "Time_le a b \<Longrightarrow> Time_less b c \<Longrightarrow> Time_less a (c :: ('t::linorder) Time)"
  using Time_less_trans [of a b c] by (auto simp: Time_le_def Time_eq_iff)

lemma Time_less_le_trans:
  "Time_less a b \<Longrightarrow> Time_le b c \<Longrightarrow> Time_less a (c :: ('t::linorder) Time)"
  using Time_less_trans [of a b c] by (auto simp: Time_le_def Time_eq_iff)


subsection \<open>fossilCollect\<close>





lemma lp_at_3_ordered:
  "chk_ordered (chk_pt lp_at_3) \<and> time_ordered (used lp_at_3)
   \<and> time_ordered (discard lp_at_3) \<and> time_ordered (lp_output lp_at_3)"
  by (simp add: lp_at_3_def chk_ordered_def time_ordered_def io_msg_def mkTime_def
      Time_le_def Time_less_def Time_eq_def)



subsection \<open>execDeltfunc: the loops as list operations\<close>

lemma erase_avail_filter: "erase_avail msg l = filter (\<lambda>m. \<not> cancelled_by msg m) l"
  by (induction l) simp_all

lemma erase_used_filter:
  "erase_used msg l b = (filter (\<lambda>m. \<not> cancelled_by msg m) l, b \<or> (\<exists>m\<in>set l. cancelled_by msg m))"
  by (induction l arbitrary: b) simp_all

lemma discard_outputs_eq:
  "discard_outputs t r dis =
     (dropWhile (\<lambda>m. Time_greater (msg_t m) t) r,
      foldl insert_message dis (takeWhile (\<lambda>m. Time_greater (msg_t m) t) r))"
  by (induction r arbitrary: dis) simp_all

lemma discard_chk_Inr:
  "discard_chk ndebug t r = Inr (r', calls) \<Longrightarrow>
     r' = dropWhile (\<lambda>c. Time_greater (chk_t c) t) r
     \<and> calls = map (\<lambda>c. Gc_state (chk_data c)) (takeWhile (\<lambda>c. Time_greater (chk_t c) t) r)
     \<and> r' \<noteq> []"
proof (induction r arbitrary: r' calls)
  case Nil
  then show ?case by simp
next
  case (Cons c r)
  show ?case
  proof (cases "Time_greater (chk_t c) t")
    case True
    with Cons.prems obtain calls1 where
      rec: "discard_chk ndebug t r = Inr (r', calls1)" and "calls = Gc_state (chk_data c) # calls1"
      by (auto split: if_splits sum.splits)
    from Cons.IH [OF rec] have a: "r' = dropWhile (\<lambda>c. Time_greater (chk_t c) t) r"
      and b: "calls1 = map (\<lambda>c. Gc_state (chk_data c)) (takeWhile (\<lambda>c. Time_greater (chk_t c) t) r)"
      and n: "r' \<noteq> []"
      by blast+
    have "r' = dropWhile (\<lambda>c. Time_greater (chk_t c) t) (c # r)"
      using a True by simp
    moreover have "calls = map (\<lambda>c. Gc_state (chk_data c))
        (takeWhile (\<lambda>c. Time_greater (chk_t c) t) (c # r))"
      using b True \<open>calls = Gc_state (chk_data c) # calls1\<close> by simp
    ultimately show ?thesis using n by blast
  next
    case False
    with Cons.prems show ?thesis by auto
  qed
qed

lemma restore_used_Inr:
  "restore_used ndebug tL1 ru av = Inr (ru', av') \<Longrightarrow>
     ru' = dropWhile (\<lambda>u. Time_ge (msg_t u) tL1) ru
     \<and> av' = rev (takeWhile (\<lambda>u. Time_ge (msg_t u) tL1) ru) @ av"
proof (induction ru arbitrary: av)
  case Nil
  then show ?case by simp
next
  case (Cons u ru)
  show ?case
  proof (cases "Time_ge (msg_t u) tL1")
    case True
    with Cons.prems have "restore_used ndebug tL1 ru (u # av) = Inr (ru', av')"
      by (auto split: if_splits)
    from Cons.IH [OF this] True show ?thesis by simp
  next
    case False
    with Cons.prems show ?thesis by auto
  qed
qed

lemma late_outputs_sorted:
  assumes "time_ordered out"
  shows "takeWhile (\<lambda>m. Time_greater (msg_t m) t) (rev out)
           = rev (filter (\<lambda>m. Time_greater (msg_t m) t) out)
       \<and> dropWhile (\<lambda>m. Time_greater (msg_t m) t) (rev out)
           = rev (filter (\<lambda>m. \<not> Time_greater (msg_t m) t) out)"
proof (rule takeWhile_dropWhile_rev_sorted)
  show "sorted_wrt (\<lambda>a b. Time_le (msg_t a) (msg_t b)) out"
    using assms by (simp add: time_ordered_def)
next
  fix a b :: "'a Message"
  assume "Time_le (msg_t a) (msg_t b)" and "Time_greater (msg_t a) t"
  then show "Time_greater (msg_t b) t"
    unfolding Time_greater_iff using Time_less_le_trans by blast
qed

lemma late_chk_sorted:
  assumes "chk_ordered cs"
  shows "takeWhile (\<lambda>c. Time_greater (chk_t c) t) (rev cs)
           = rev (filter (\<lambda>c. Time_greater (chk_t c) t) cs)
       \<and> dropWhile (\<lambda>c. Time_greater (chk_t c) t) (rev cs)
           = rev (filter (\<lambda>c. \<not> Time_greater (chk_t c) t) cs)"
proof (rule takeWhile_dropWhile_rev_sorted)
  show "sorted_wrt (\<lambda>a b. Time_le (chk_t a) (chk_t b)) cs"
    using assms by (simp add: chk_ordered_def)
next
  fix a b :: "'a CheckPoint"
  assume "Time_le (chk_t a) (chk_t b)" and "Time_greater (chk_t a) t"
  then show "Time_greater (chk_t b) t"
    unfolding Time_greater_iff using Time_less_le_trans by blast
qed

lemma redo_used_sorted:
  assumes "time_ordered us"
  shows "takeWhile (\<lambda>u. Time_ge (msg_t u) t) (rev us)
           = rev (filter (\<lambda>u. Time_ge (msg_t u) t) us)
       \<and> dropWhile (\<lambda>u. Time_ge (msg_t u) t) (rev us)
           = rev (filter (\<lambda>u. \<not> Time_ge (msg_t u) t) us)"
proof (rule takeWhile_dropWhile_rev_sorted)
  show "sorted_wrt (\<lambda>a b. Time_le (msg_t a) (msg_t b)) us"
    using assms by (simp add: time_ordered_def)
next
  fix a b :: "'a Message"
  assume "Time_le (msg_t a) (msg_t b)" and "Time_ge (msg_t a) t"
  then show "Time_ge (msg_t b) t"
    unfolding Time_ge_def using Time_le_less_trans by blast
qed

lemma time_ordered_filter: "time_ordered l \<Longrightarrow> time_ordered (filter P l)"
  by (simp add: time_ordered_def sorted_wrt_filter)

text \<open>What a rollback that returns has done, on time-ordered queues.\<close>

lemma rollback_Inr:
  fixes lp :: "('s, 'x, 'h) LogicalProcess"
  assumes res: "rollback M ndebug lp msg = Inr lp'"
    and ord: "time_ordered (lp_output lp)" "chk_ordered (chk_pt lp)" "time_ordered (used lp)"
  defines "remaining \<equiv> filter (\<lambda>c. \<not> Time_greater (chk_t c) (msg_t msg)) (chk_pt lp)"
  defines "t_bad \<equiv> Time_plus (msg_t msg) (mkTime 0 1)"
  shows "remaining \<noteq> []"
    and "lp' = lp\<lparr>lp_output := filter (\<lambda>m. \<not> Time_greater (msg_t m) (msg_t msg)) (lp_output lp),
            discard := foldl insert_message (discard lp)
                         (rev (filter (\<lambda>m. Time_greater (msg_t m) (msg_t msg)) (lp_output lp))),
            chk_pt := butlast remaining,
            lp_tL := chk_t (last remaining), model_tL := Time_t (chk_t (last remaining)),
            model_state := lp_restore_state M (chk_data (last remaining)) (model_state lp),
            time_advance := lp_ta M (lp_restore_state M (chk_data (last remaining)) (model_state lp)),
            used := filter (\<lambda>m. \<not> Time_ge (msg_t m) (chk_t (last remaining))) (used lp),
            avail := filter (\<lambda>m. Time_ge (msg_t m) (chk_t (last remaining))) (used lp) @ avail lp,
            rb_time := (if \<not> rb_pending lp \<or> Time_less t_bad (rb_time lp) then t_bad
                        else rb_time lp),
            rb_pending := True,
            lp_log := lp_log lp
              @ map (\<lambda>c. Gc_state (chk_data c))
                  (rev (filter (\<lambda>c. Time_greater (chk_t c) (msg_t msg)) (chk_pt lp)))
              @ [Restore_state (chk_data (last remaining)), Gc_state (chk_data (last remaining))]\<rparr>"
proof -
  from res obtain rchk calls where
    dc: "discard_chk ndebug (msg_t msg) (rev (chk_pt lp)) = Inr (rchk, calls :: ('x, 'h) LP_call list)"
    by (auto simp: rollback_def Let_def split: if_splits prod.splits sum.splits)
  note dcI = discard_chk_Inr [OF dc]
  note lc = late_chk_sorted [OF ord(2), of "msg_t msg"]
  from dcI have d1: "rchk = dropWhile (\<lambda>c. Time_greater (chk_t c) (msg_t msg)) (rev (chk_pt lp))"
    and d2: "calls = map (\<lambda>c. Gc_state (chk_data c))
               (takeWhile (\<lambda>c. Time_greater (chk_t c) (msg_t msg)) (rev (chk_pt lp)))"
    and d3: "rchk \<noteq> []"
    by blast+
  from d1 lc have rchk: "rchk = rev remaining"
    by (simp add: remaining_def)
  from d2 lc have calls: "calls = map (\<lambda>c. Gc_state (chk_data c))
                  (rev (filter (\<lambda>c. Time_greater (chk_t c) (msg_t msg)) (chk_pt lp)))"
    by simp
  from d3 rchk have ne: "remaining \<noteq> []"
    by auto
  show "remaining \<noteq> []" by (rule ne)
  from d3 obtain c rchk1 where rc: "rchk = c # rchk1"
    by (cases rchk) simp_all
  from rc rchk have "remaining = rev rchk1 @ [c]"
    by (metis rev.simps(2) rev_rev_ident)
  then have c: "c = last remaining" and rchk1: "rev rchk1 = butlast remaining"
    by simp_all
  from res dc rc obtain rused av where
    ru: "restore_used ndebug (chk_t c) (rev (used lp)) (avail lp) = Inr (rused, av)"
    by (auto simp: rollback_def Let_def split: if_splits prod.splits sum.splits)
  note ruI = restore_used_Inr [OF ru]
  note us = redo_used_sorted [OF ord(3), of "chk_t c"]
  from ruI us have rused: "rev rused = filter (\<lambda>m. \<not> Time_ge (msg_t m) (chk_t c)) (used lp)"
    and av: "av = filter (\<lambda>m. Time_ge (msg_t m) (chk_t c)) (used lp) @ avail lp"
    by simp_all
  note lo = late_outputs_sorted [OF ord(1), of "msg_t msg"]
  from res have pre: "\<not> (chk_pt lp = [] \<and> \<not> ndebug)"
    and dt: "\<not> lp_ta M (lp_restore_state M (chk_data c) (model_state lp)) < 0"
    using dc rc by (auto simp: rollback_def Let_def split: if_splits prod.splits sum.splits)
  have "rollback M ndebug lp msg = Inr (lp\<lparr>lp_output := filter (\<lambda>m. \<not> Time_greater (msg_t m) (msg_t msg)) (lp_output lp),
            discard := foldl insert_message (discard lp)
                         (rev (filter (\<lambda>m. Time_greater (msg_t m) (msg_t msg)) (lp_output lp))),
            chk_pt := butlast remaining,
            lp_tL := chk_t (last remaining), model_tL := Time_t (chk_t (last remaining)),
            model_state := lp_restore_state M (chk_data (last remaining)) (model_state lp),
            time_advance := lp_ta M (lp_restore_state M (chk_data (last remaining)) (model_state lp)),
            used := filter (\<lambda>m. \<not> Time_ge (msg_t m) (chk_t (last remaining))) (used lp),
            avail := filter (\<lambda>m. Time_ge (msg_t m) (chk_t (last remaining))) (used lp) @ avail lp,
            rb_time := (if \<not> rb_pending lp \<or> Time_less t_bad (rb_time lp) then t_bad
                        else rb_time lp),
            rb_pending := True,
            lp_log := lp_log lp
              @ map (\<lambda>c. Gc_state (chk_data c))
                  (rev (filter (\<lambda>c. Time_greater (chk_t c) (msg_t msg)) (chk_pt lp)))
              @ [Restore_state (chk_data (last remaining)), Gc_state (chk_data (last remaining))]\<rparr>)"
    unfolding rollback_def Let_def discard_outputs_eq
    using pre dt dc rc ru lo rused av calls rchk1 c
    by (simp add: t_bad_def)
  with res show "lp' = lp\<lparr>lp_output := filter (\<lambda>m. \<not> Time_greater (msg_t m) (msg_t msg)) (lp_output lp),
            discard := foldl insert_message (discard lp)
                         (rev (filter (\<lambda>m. Time_greater (msg_t m) (msg_t msg)) (lp_output lp))),
            chk_pt := butlast remaining,
            lp_tL := chk_t (last remaining), model_tL := Time_t (chk_t (last remaining)),
            model_state := lp_restore_state M (chk_data (last remaining)) (model_state lp),
            time_advance := lp_ta M (lp_restore_state M (chk_data (last remaining)) (model_state lp)),
            used := filter (\<lambda>m. \<not> Time_ge (msg_t m) (chk_t (last remaining))) (used lp),
            avail := filter (\<lambda>m. Time_ge (msg_t m) (chk_t (last remaining))) (used lp) @ avail lp,
            rb_time := (if \<not> rb_pending lp \<or> Time_less t_bad (rb_time lp) then t_bad
                        else rb_time lp),
            rb_pending := True,
            lp_log := lp_log lp
              @ map (\<lambda>c. Gc_state (chk_data c))
                  (rev (filter (\<lambda>c. Time_greater (chk_t c) (msg_t msg)) (chk_pt lp)))
              @ [Restore_state (chk_data (last remaining)), Gc_state (chk_data (last remaining))]\<rparr>"
    by simp
qed

lemma rollback_raw:
  fixes lp :: "('s, 'x, 'h) LogicalProcess"
  assumes res: "rollback M ndebug lp msg = Inr lp'"
  obtains c :: "'h CheckPoint" and rused av where
    "restore_used ndebug (chk_t c) (rev (used lp)) (avail lp) = Inr (rused, av)"
    and "used lp' = rev rused" and "avail lp' = av"
proof (cases "discard_chk ndebug (msg_t msg) (rev (chk_pt lp)) :: LP_exception + ('h CheckPoint list \<times> ('x, 'h) LP_call list)")
  case (Inl e)
  with res show ?thesis
    by (simp add: rollback_def Let_def split: if_splits prod.splits)
next
  case (Inr p)
  obtain rchk calls where p: "p = (rchk, calls)" by (cases p)
  show ?thesis
  proof (cases rchk)
    case Nil
    with res Inr p show ?thesis
      by (simp add: rollback_def Let_def split: if_splits prod.splits)
  next
    case (Cons c rchk1)
    show ?thesis
    proof (cases "restore_used ndebug (chk_t c) (rev (used lp)) (avail lp)")
      case (Inl e)
      with res Inr p Cons show ?thesis
        by (simp add: rollback_def Let_def split: if_splits prod.splits)
    next
      case ru: (Inr q)
      obtain rused av where q: "q = (rused, av)" by (cases q)
      from res Inr p Cons ru q have u: "used lp' = rev rused" and a: "avail lp' = av"
        by (auto simp: rollback_def Let_def split: if_splits prod.splits)
      from ru q have "restore_used ndebug (chk_t c) (rev (used lp)) (avail lp) = Inr (rused, av)"
        by simp
      from that [OF this u a] show ?thesis .
    qed
  qed
qed

lemma rollback_queues:
  fixes lp :: "('s, 'x, 'h) LogicalProcess"
  assumes "rollback M ndebug lp msg = Inr lp'"
  shows "used lp' @ avail lp' = used lp @ avail lp"
proof -
  from assms obtain c :: "'h CheckPoint" and rused av where
    ru: "restore_used ndebug (chk_t c) (rev (used lp)) (avail lp) = Inr (rused, av)"
    and u: "used lp' = rev rused" and a: "avail lp' = av"
    by (rule rollback_raw)
  from restore_used_Inr [OF ru] have "rev rused @ av = rev (rev (used lp)) @ avail lp"
    by (simp flip: rev_append)
  with u a show ?thesis by simp
qed

text \<open>
  Claim C4.  Processing a rollback message of source \<open>s\<close> and time stamp \<open>T\<close> erases
  from \<^verbatim>\<open>avail\<close> and from \<^verbatim>\<open>used\<close> exactly the messages of source \<open>s\<close> with a time
  stamp at or after \<open>T\<close>; \<^verbatim>\<open>used_msg_cancelled\<close> is set exactly when such a message
  was in \<^verbatim>\<open>used\<close>, and then the rollback follows.  All other messages stay, in their
  order: when the turn of the loop returns, \<^verbatim>\<open>used\<close> followed by \<^verbatim>\<open>avail\<close> is the old
  \<^verbatim>\<open>used\<close> followed by the old \<^verbatim>\<open>avail\<close> without the erased messages.
\<close>

theorem rollback_message_erases:
  fixes lp :: "('s, 'x, 'h) LogicalProcess"
  assumes "msg_type msg = RB"
  shows
    "erase_avail msg (avail lp)
       = filter (\<lambda>m. \<not> (msg_src m = msg_src msg \<and> Time_ge (msg_t m) (msg_t msg))) (avail lp)
     \<and> erase_used msg (used lp) False
       = (filter (\<lambda>m. \<not> (msg_src m = msg_src msg \<and> Time_ge (msg_t m) (msg_t msg))) (used lp),
          \<exists>m\<in>set (used lp). msg_src m = msg_src msg \<and> Time_ge (msg_t m) (msg_t msg))
     \<and> accept_message M ndebug lp msg
       = (let lp1 = lp\<lparr>avail := filter (\<lambda>m. \<not> (msg_src m = msg_src msg
                                       \<and> Time_ge (msg_t m) (msg_t msg))) (avail lp),
                        used := filter (\<lambda>m. \<not> (msg_src m = msg_src msg
                                       \<and> Time_ge (msg_t m) (msg_t msg))) (used lp)\<rparr>
          in if (\<exists>m\<in>set (used lp). msg_src m = msg_src msg \<and> Time_ge (msg_t m) (msg_t msg))
             then rollback M ndebug lp1 msg else Inr lp1)
     \<and> (\<forall>lp'. accept_message M ndebug lp msg = Inr lp' \<longrightarrow>
          used lp' @ avail lp'
            = filter (\<lambda>m. \<not> (msg_src m = msg_src msg \<and> Time_ge (msg_t m) (msg_t msg))) (used lp)
              @ filter (\<lambda>m. \<not> (msg_src m = msg_src msg \<and> Time_ge (msg_t m) (msg_t msg))) (avail lp))"
proof -
  let ?keep = "\<lambda>m::'x Message. \<not> (msg_src m = msg_src msg \<and> Time_ge (msg_t m) (msg_t msg))"
  let ?lp1 = "lp\<lparr>avail := filter ?keep (avail lp), used := filter ?keep (used lp)\<rparr>"
  let ?c = "\<exists>m\<in>set (used lp). msg_src m = msg_src msg \<and> Time_ge (msg_t m) (msg_t msg)"
  have a: "erase_avail msg (avail lp) = filter ?keep (avail lp)"
    by (simp add: erase_avail_filter cancelled_by_def)
  have u: "erase_used msg (used lp) False = (filter ?keep (used lp), ?c)"
    by (simp add: erase_used_filter cancelled_by_def)
  have acc: "accept_message M ndebug lp msg = (if ?c then rollback M ndebug ?lp1 msg else Inr ?lp1)"
    using assms by (auto simp: accept_message_def a u)
  have rest: "used lp' @ avail lp' = filter ?keep (used lp) @ filter ?keep (avail lp)"
    if "accept_message M ndebug lp msg = Inr lp'" for lp'
  proof (cases ?c)
    case True
    with that acc have "rollback M ndebug ?lp1 msg = Inr lp'" by simp
    from rollback_queues [OF this] show ?thesis by simp
  next
    case False
    with acc have "accept_message M ndebug lp msg = Inr ?lp1"
      by (simp only: if_False)
    with that have "lp' = ?lp1"
      by (simp only: sum.inject)
    then show ?thesis by simp
  qed
  show ?thesis
    unfolding Let_def
    apply (intro conjI)
       apply (rule a)
      apply (rule u)
     apply (rule acc)
    using rest apply blast
    done
qed

theorem rollback_message_erases_witness:
  "msg_type (rb_msg 5 7) = RB
   \<and> accept_message counter_model False lp_at_3 (rb_msg 5 7)
       = Inr (lp_at_3\<lparr>avail := [], used := [io_msg (1/2) 8 5]\<rparr>)
   \<and> msg_type (rb_msg (1/4) 8) = RB
   \<and> erase_used (rb_msg (1/4) 8) (used lp_at_3) False = ([], True)
   \<and> (\<exists>lp'. accept_message counter_model False lp_at_3 (rb_msg (1/4) 8) = Inr lp'
            \<and> used lp' @ avail lp' = [io_msg 9 7 90])"
proof -
  have t1: "msg_type (rb_msg 5 7) = RB" and t2: "msg_type (rb_msg (1/4) 8) = RB"
    by (simp_all add: rb_msg_def)
  have vals: "used lp_at_3 = [io_msg (1/2) 8 5]" "avail lp_at_3 = [io_msg 9 7 90]"
    by (simp_all add: lp_at_3_def)
  have keep1: "filter (\<lambda>m. \<not> (msg_src m = msg_src (rb_msg 5 7)
                  \<and> Time_ge (msg_t m) (msg_t (rb_msg 5 7)))) [io_msg 9 7 90] = []"
    "filter (\<lambda>m. \<not> (msg_src m = msg_src (rb_msg 5 7)
                  \<and> Time_ge (msg_t m) (msg_t (rb_msg 5 7)))) [io_msg (1/2) 8 5] = [io_msg (1/2) 8 5]"
    by (simp_all add: rb_msg_def io_msg_def Time_ge_def Time_less_def mkTime_def)
  have keep2: "filter (\<lambda>m. \<not> (msg_src m = msg_src (rb_msg (1/4) 8)
                  \<and> Time_ge (msg_t m) (msg_t (rb_msg (1/4) 8)))) [io_msg 9 7 90] = [io_msg 9 7 90]"
    "filter (\<lambda>m. \<not> (msg_src m = msg_src (rb_msg (1/4) 8)
                  \<and> Time_ge (msg_t m) (msg_t (rb_msg (1/4) 8)))) [io_msg (1/2) 8 5] = []"
    by (simp_all add: rb_msg_def io_msg_def Time_ge_def Time_less_def mkTime_def)
  have c1: "\<not> (\<exists>m\<in>set [io_msg (1/2) 8 5]. msg_src m = msg_src (rb_msg 5 7)
                  \<and> Time_ge (msg_t m) (msg_t (rb_msg 5 7)))"
    by (simp add: rb_msg_def io_msg_def)
  have c2: "\<exists>m\<in>set [io_msg (1/2) 8 5]. msg_src m = msg_src (rb_msg (1/4) 8)
                  \<and> Time_ge (msg_t m) (msg_t (rb_msg (1/4) 8))"
    by (simp add: rb_msg_def io_msg_def Time_ge_def Time_less_def mkTime_def)
  note A = rollback_message_erases [OF t1, of lp_at_3 counter_model False,
      unfolded vals keep1 Let_def]
  note B = rollback_message_erases [OF t2, of lp_at_3 counter_model False,
      unfolded vals keep2 Let_def]
  have first: "accept_message counter_model False lp_at_3 (rb_msg 5 7)
       = Inr (lp_at_3\<lparr>avail := [], used := [io_msg (1/2) 8 5]\<rparr>)"
    using A c1 by (simp only: if_False)
  have eu: "erase_used (rb_msg (1/4) 8) [io_msg (1/2) 8 5] False = ([], True)"
    using B c2 by (simp only: simp_thms)
  have "\<exists>lp'. accept_message counter_model False lp_at_3 (rb_msg (1/4) 8) = Inr lp'"
    by (simp add: accept_message_def rollback_def Let_def lp_at_3_def rb_msg_def io_msg_def
        counter_model_def cancelled_by_def Time_ge_def Time_greater_def Time_le_def Time_eq_def
        Time_less_def mkTime_def Time_plus_def)
  then obtain lp' where r: "accept_message counter_model False lp_at_3 (rb_msg (1/4) 8) = Inr lp'"
    by blast
  with B have "used lp' @ avail lp' = [io_msg 9 7 90]"
    by simp
  with r have "\<exists>lp'. accept_message counter_model False lp_at_3 (rb_msg (1/4) 8) = Inr lp'
            \<and> used lp' @ avail lp' = [io_msg 9 7 90]"
    by blast
  with t1 t2 first eu vals show ?thesis by simp
qed

lemma time_ordered_erase: "time_ordered l \<Longrightarrow> time_ordered (filter P l)"
  by (rule time_ordered_filter)

text \<open>
  What a turn of \<^verbatim>\<open>while (!input.empty())\<close> that rolls back has done when it returns
  (the restored time advance is not negative, no assertion fails), on time-ordered queues:
  every output later than the message has moved from \<^verbatim>\<open>output\<close> into \<^verbatim>\<open>discard\<close>; every
  checkpoint later than the message has been passed to \<^verbatim>\<open>gc_state\<close> and popped; the state
  is restored from the last remaining checkpoint \<open>ck\<close> (which is then released and popped
  too), \<^verbatim>\<open>tL\<close> is the time of \<open>ck\<close> and the time advance is recomputed; the used
  messages at or after the new \<^verbatim>\<open>tL\<close> are at the front of \<^verbatim>\<open>avail\<close>; and a rollback is
  pending at \<open>msg.t + (0, 1)\<close>, unless one was pending at a time that is not later.
\<close>

lemma rollback_on_return:
  fixes lp :: "('s, 'x, 'h) LogicalProcess"
  assumes res: "accept_message M ndebug lp msg = Inr lp'"
    and trigger: "(msg_type msg \<noteq> RB \<and> Time_less (msg_t msg) (lp_tL lp))
                  \<or> (msg_type msg = RB \<and> (\<exists>u\<in>set (used lp). msg_src u = msg_src msg
                                                \<and> Time_ge (msg_t u) (msg_t msg)))"
    and ord: "time_ordered (lp_output lp)" "chk_ordered (chk_pt lp)" "time_ordered (used lp)"
  shows
    "(let remaining = filter (\<lambda>c. \<not> Time_greater (chk_t c) (msg_t msg)) (chk_pt lp);
          ck = last remaining;
          used1 = (if msg_type msg = RB
                   then filter (\<lambda>m. \<not> (msg_src m = msg_src msg
                                        \<and> Time_ge (msg_t m) (msg_t msg))) (used lp)
                   else used lp);
          avail1 = (if msg_type msg = RB
                    then filter (\<lambda>m. \<not> (msg_src m = msg_src msg
                                         \<and> Time_ge (msg_t m) (msg_t msg))) (avail lp)
                    else insert_message (avail lp) msg);
          t_bad = Time_plus (msg_t msg) (mkTime 0 1)
      in remaining \<noteq> []
       \<and> lp_output lp' = filter (\<lambda>m. \<not> Time_greater (msg_t m) (msg_t msg)) (lp_output lp)
       \<and> discard lp' = foldl insert_message (discard lp)
                          (rev (filter (\<lambda>m. Time_greater (msg_t m) (msg_t msg)) (lp_output lp)))
       \<and> chk_pt lp' = butlast remaining
       \<and> lp_log lp' = lp_log lp
            @ map (\<lambda>c. Gc_state (chk_data c))
                (rev (filter (\<lambda>c. Time_greater (chk_t c) (msg_t msg)) (chk_pt lp)))
            @ [Restore_state (chk_data ck), Gc_state (chk_data ck)]
       \<and> lp_tL lp' = chk_t ck
       \<and> model_state lp' = lp_restore_state M (chk_data ck) (model_state lp)
       \<and> time_advance lp' = lp_ta M (model_state lp')
       \<and> avail lp' = filter (\<lambda>m. Time_ge (msg_t m) (chk_t ck)) used1 @ avail1
       \<and> used lp' = filter (\<lambda>m. \<not> Time_ge (msg_t m) (chk_t ck)) used1
       \<and> rb_pending lp'
       \<and> rb_time lp' = (if rb_pending lp \<and> \<not> Time_less t_bad (rb_time lp)
                         then rb_time lp else t_bad))"
proof -
  let ?keep = "\<lambda>m::'x Message. \<not> (msg_src m = msg_src msg \<and> Time_ge (msg_t m) (msg_t msg))"
  let ?used1 = "if msg_type msg = RB then filter ?keep (used lp) else used lp"
  let ?avail1 = "if msg_type msg = RB then filter ?keep (avail lp) else insert_message (avail lp) msg"
  let ?lp1 = "lp\<lparr>avail := ?avail1, used := ?used1\<rparr>"
  have acc: "accept_message M ndebug lp msg = rollback M ndebug ?lp1 msg"
    using trigger
    by (auto simp: accept_message_def erase_avail_filter erase_used_filter cancelled_by_def)
  with res have rb: "rollback M ndebug ?lp1 msg = Inr lp'"
    by simp
  have o1: "time_ordered (lp_output ?lp1)" and o2: "chk_ordered (chk_pt ?lp1)"
    and o3: "time_ordered (used ?lp1)"
    using ord by (simp_all add: time_ordered_filter)
  note R = rollback_Inr [OF rb o1 o2 o3]
  have ne: "filter (\<lambda>c. \<not> Time_greater (chk_t c) (msg_t msg)) (chk_pt lp) \<noteq> []"
    using R(1) by simp
  show ?thesis
    unfolding Let_def
    apply (subst (1 2 3 4 5 6 7 8 9 10 11 12) R(2))
    using ne apply simp
    done
qed

lemma lp_at_3_accepts:
  "\<exists>lp'. accept_message counter_model False lp_at_3 (io_msg (3/2) 7 77) = Inr lp'"
  by (simp add: accept_message_def rollback_def Let_def lp_at_3_def io_msg_def
      counter_model_def Time_ge_def Time_greater_def Time_le_def Time_eq_def
      Time_less_def mkTime_def Time_plus_def)

lemma rollback_on_return_example:
  "\<exists>lp'. accept_message counter_model False lp_at_3 (io_msg (3/2) 7 77) = Inr lp'
     \<and> lp_output lp' = [io_msg 1 1 11]
     \<and> discard lp' = [io_msg (1/4) 1 10, io_msg 2 1 12, io_msg 3 1 13, io_msg 4 1 14]
     \<and> chk_pt lp' = [\<lparr>chk_t = mkTime 0 0, chk_data = 0\<rparr>, \<lparr>chk_t = mkTime (1/2) 1, chk_data = 10\<rparr>]
     \<and> lp_log lp' = [Gc_state 12, Restore_state 11, Gc_state 11]
     \<and> lp_tL lp' = mkTime 1 1 \<and> model_state lp' = 11 \<and> time_advance lp' = 1
     \<and> avail lp' = [io_msg (3/2) 7 77, io_msg 9 7 90]
     \<and> used lp' = [io_msg (1/2) 8 5]
     \<and> rb_pending lp' \<and> rb_time lp' = mkTime (3/2) 1"
proof -
  from lp_at_3_accepts obtain lp' where
    res: "accept_message counter_model False lp_at_3 (io_msg (3/2) 7 77) = Inr lp'"
    by blast
  have trigger: "(msg_type (io_msg (3/2) 7 77) \<noteq> RB
        \<and> Time_less (msg_t (io_msg (3/2) 7 77)) (lp_tL lp_at_3))
      \<or> (msg_type (io_msg (3/2) 7 77) = RB
        \<and> (\<exists>u\<in>set (used lp_at_3). msg_src u = msg_src (io_msg (3/2) 7 77)
              \<and> Time_ge (msg_t u) (msg_t (io_msg (3/2) 7 77))))"
    by (simp add: io_msg_def lp_at_3_def Time_less_def mkTime_def)
  have o1: "time_ordered (lp_output lp_at_3)" and o2: "chk_ordered (chk_pt lp_at_3)"
    and o3: "time_ordered (used lp_at_3)"
    using lp_at_3_ordered by simp_all
  have vals: "chk_pt lp_at_3 = [\<lparr>chk_t = mkTime 0 0, chk_data = 0\<rparr>,
        \<lparr>chk_t = mkTime (1/2) 1, chk_data = 10\<rparr>,
        \<lparr>chk_t = mkTime 1 1, chk_data = 11\<rparr>, \<lparr>chk_t = mkTime 2 1, chk_data = 12\<rparr>]"
    "used lp_at_3 = [io_msg (1/2) 8 5]" "discard lp_at_3 = [io_msg (1/4) 1 10]"
    "avail lp_at_3 = [io_msg 9 7 90]"
    "lp_output lp_at_3 = [io_msg 1 1 11, io_msg 2 1 12, io_msg 3 1 13, io_msg 4 1 14]"
    "lp_log lp_at_3 = []" "rb_pending lp_at_3 = False" "model_state lp_at_3 = 13"
    by (simp_all add: lp_at_3_def)
  have "lp_output lp' = [io_msg 1 1 11]
     \<and> discard lp' = [io_msg (1/4) 1 10, io_msg 2 1 12, io_msg 3 1 13, io_msg 4 1 14]
     \<and> chk_pt lp' = [\<lparr>chk_t = mkTime 0 0, chk_data = 0\<rparr>, \<lparr>chk_t = mkTime (1/2) 1, chk_data = 10\<rparr>]
     \<and> lp_log lp' = [Gc_state 12, Restore_state 11, Gc_state 11]
     \<and> lp_tL lp' = mkTime 1 1 \<and> model_state lp' = 11 \<and> time_advance lp' = 1
     \<and> avail lp' = [io_msg (3/2) 7 77, io_msg 9 7 90]
     \<and> used lp' = [io_msg (1/2) 8 5]
     \<and> rb_pending lp' \<and> rb_time lp' = mkTime (3/2) 1"
    using rollback_on_return [OF res trigger o1 o2 o3]
    unfolding vals Let_def
    by (simp add: io_msg_def counter_model_def Time_ge_def Time_greater_def Time_le_def
        Time_eq_def Time_less_def mkTime_def Time_plus_def)
  with res show ?thesis by blast
qed

subsection \<open>A message before a used message\<close>

lemma hd_insert_message:
  "\<not> Time_greater (msg_t (hd (insert_message l msg))) (msg_t (msg :: 'x Message))"
  by (cases l) (auto simp: Time_greater_def Time_le_def Time_eq_def)

lemma insert_message_nonempty: "insert_message l msg \<noteq> []"
  by (cases l) auto

text \<open>
  An \<^verbatim>\<open>IO\<close> message is inserted into \<^verbatim>\<open>avail\<close> before the rollback.  When the last used
  message is later than the message, the loop that moves the used messages back finds
  \<^verbatim>\<open>used.back()\<close> later than \<^verbatim>\<open>avail.front()\<close>: with the assertions compiled in, the turn
  never returns.
\<close>

lemma straggler_before_used_aborts:
  fixes lp :: "('s, 'x, 'h) LogicalProcess"
  assumes io: "msg_type msg \<noteq> RB" and late: "Time_less (msg_t msg) (lp_tL lp)"
    and used: "used lp \<noteq> []" "Time_less (msg_t msg) (msg_t (last (used lp)))"
  shows "\<exists>e. accept_message M False lp msg = Inl e"
proof -
  let ?av = "insert_message (avail lp) msg"
  let ?lp1 = "lp\<lparr>avail := ?av\<rparr>"
  have acc: "accept_message M False lp msg = rollback M False ?lp1 msg"
    using io late by (simp add: accept_message_def)
  obtain u rused where ru: "rev (used lp) = u # rused" and u: "u = last (used lp)"
    using used(1) by (cases "used lp" rule: rev_cases) auto
  have fail: "restore_used False (chk_t c) (rev (used ?lp1)) (avail ?lp1) = Inl Assertion_failed"
    if c: "\<not> Time_greater (chk_t c) (msg_t msg)" for c :: "'h CheckPoint"
  proof -
    from c have "Time_le (chk_t c) (msg_t msg)" by (simp add: Time_greater_def)
    with used(2) u have "Time_less (chk_t c) (msg_t u)"
      using Time_le_less_trans by blast
    then have ge: "Time_ge (msg_t u) (chk_t c)"
      unfolding Time_ge_def using Time_less_trans Time_less_irrefl by blast
    have "Time_le (msg_t (hd ?av)) (msg_t msg)"
      using hd_insert_message [of "avail lp" msg] by (simp add: Time_greater_def)
    with used(2) u have "Time_less (msg_t (hd ?av)) (msg_t u)"
      using Time_le_less_trans by blast
    then have "\<not> Time_le (msg_t u) (msg_t (hd ?av))"
      unfolding Time_le_iff by simp
    with ge ru show ?thesis
      by (simp add: insert_message_nonempty)
  qed
  show ?thesis
  proof (cases "discard_chk False (msg_t msg) (rev (chk_pt ?lp1))
      :: LP_exception + ('h CheckPoint list \<times> ('x, 'h) LP_call list)")
    case (Inl e)
    then show ?thesis
      unfolding acc by (simp add: rollback_def Let_def split: prod.splits)
  next
    case (Inr p)
    obtain rchk calls where p: "p = (rchk, calls)" by (cases p)
    from discard_chk_Inr [OF Inr [unfolded p]]
    have r: "rchk = dropWhile (\<lambda>c. Time_greater (chk_t c) (msg_t msg)) (rev (chk_pt ?lp1))"
      and ne: "rchk \<noteq> []"
      by blast+
    from ne obtain c rchk1 where rc: "rchk = c # rchk1" by (cases rchk) auto
    from r ne have "dropWhile (\<lambda>c. Time_greater (chk_t c) (msg_t msg)) (rev (chk_pt ?lp1)) \<noteq> []"
      by blast
    from hd_dropWhile [OF this] have "\<not> Time_greater (chk_t (hd rchk)) (msg_t msg)"
      unfolding r .
    then have "\<not> Time_greater (chk_t c) (msg_t msg)"
      by (simp add: rc)
    from fail [OF this] Inr p rc show ?thesis
      unfolding acc by (simp add: rollback_def Let_def split: prod.splits)
  qed
qed

text \<open>
  Claim C3.  The rollback on an \<^verbatim>\<open>IO\<close> message with a time stamp before \<^verbatim>\<open>tL\<close> is not carried
  out when a used message is later than the message.  The counter at time 3 has used a
  message of time 1/2 and receives a message of time 1/4.  With the assertions compiled in,
  \<^verbatim>\<open>assert(avail.empty() || used.back().t <= avail.front().t)\<close> fails and \<^verbatim>\<open>execDeltfunc\<close>
  does not return.  Without them the used message is pushed in front of the earlier message:
  \<^verbatim>\<open>avail\<close> is no longer ordered by time, the event at time 1/2 is computed first and leaves
  \<^verbatim>\<open>tL\<close> at \<open>(1/2, 1)\<close>, and the next call passes the message of time 1/4 to \<^verbatim>\<open>delta_ext\<close>
  with the elapsed time \<open>- 1/4\<close>.
\<close>

theorem straggler_rollback_aborts:
  "accept_message counter_model False lp_at_3 (io_msg (1/4) 7 77) = Inl Assertion_failed
   \<and> execDeltfunc counter_model False (lp_at_3\<lparr>lp_input := [io_msg (1/4) 7 77]\<rparr>)
       = Inl Assertion_failed
   \<and> (\<exists>lp1. accept_message counter_model True lp_at_3 (io_msg (1/4) 7 77) = Inr lp1
         \<and> avail lp1 = [io_msg (1/2) 8 5, io_msg (1/4) 7 77, io_msg 9 7 90] \<and> used lp1 = []
         \<and> lp_tL lp1 = mkTime 0 0 \<and> \<not> time_ordered (avail lp1))
   \<and> (\<exists>lp1 lp2. execDeltfunc counter_model True (lp_at_3\<lparr>lp_input := [io_msg (1/4) 7 77]\<rparr>)
                  = Inr lp1
         \<and> avail lp1 = [io_msg (1/4) 7 77, io_msg 9 7 90] \<and> used lp1 = [io_msg (1/2) 8 5]
         \<and> lp_tL lp1 = mkTime (1/2) 1
         \<and> lp_log lp1 = [Gc_state 12, Gc_state 11, Gc_state 10, Restore_state 0, Gc_state 0,
                          Save_state 0, Delta_ext (1/2) [5]]
         \<and> execDeltfunc counter_model True lp1 = Inr lp2
         \<and> lp_log lp2 = lp_log lp1 @ [Save_state 10, Delta_ext (- (1/4)) [77]])"
proof (intro conjI)
  show "accept_message counter_model False lp_at_3 (io_msg (1/4) 7 77) = Inl Assertion_failed"
    by (simp add: accept_message_def rollback_def Let_def lp_at_3_def io_msg_def
        counter_model_def Time_ge_def Time_greater_def Time_le_def Time_eq_def
        Time_less_def mkTime_def Time_plus_def)
  show "execDeltfunc counter_model False (lp_at_3\<lparr>lp_input := [io_msg (1/4) 7 77]\<rparr>)
       = Inl Assertion_failed"
    by (simp add: execDeltfunc_def accept_message_def rollback_def Let_def lp_at_3_def
        io_msg_def counter_model_def Time_ge_def Time_greater_def Time_le_def Time_eq_def
        Time_less_def mkTime_def Time_plus_def)
  show "\<exists>lp1. accept_message counter_model True lp_at_3 (io_msg (1/4) 7 77) = Inr lp1
         \<and> avail lp1 = [io_msg (1/2) 8 5, io_msg (1/4) 7 77, io_msg 9 7 90] \<and> used lp1 = []
         \<and> lp_tL lp1 = mkTime 0 0 \<and> \<not> time_ordered (avail lp1)"
    by (simp add: accept_message_def rollback_def Let_def lp_at_3_def io_msg_def
        counter_model_def Time_ge_def Time_greater_def Time_le_def Time_eq_def
        Time_less_def mkTime_def Time_plus_def time_ordered_def)
  show "\<exists>lp1 lp2. execDeltfunc counter_model True (lp_at_3\<lparr>lp_input := [io_msg (1/4) 7 77]\<rparr>)
                  = Inr lp1
         \<and> avail lp1 = [io_msg (1/4) 7 77, io_msg 9 7 90] \<and> used lp1 = [io_msg (1/2) 8 5]
         \<and> lp_tL lp1 = mkTime (1/2) 1
         \<and> lp_log lp1 = [Gc_state 12, Gc_state 11, Gc_state 10, Restore_state 0, Gc_state 0,
                          Save_state 0, Delta_ext (1/2) [5]]
         \<and> execDeltfunc counter_model True lp1 = Inr lp2
         \<and> lp_log lp2 = lp_log lp1 @ [Save_state 10, Delta_ext (- (1/4)) [77]]"
    by (simp add: execDeltfunc_def next_event_def accept_message_def rollback_def Let_def
        lp_at_3_def io_msg_def counter_model_def Time_ge_def Time_greater_def Time_le_def
        Time_eq_def Time_less_def mkTime_def Time_plus_def DBL_MAX_def INT_MAX_def)
qed

section \<open>Properties of the sequential simulator\<close>

subsection \<open>schedule\<close>

lemma schedule_cases:
  fixes E :: "('s, 'v, 't::{plus,ord}, 'g, 'q) Env"
  shows "schedule E m t s =
     (let dt = ta E m (atomic_state (heap s m)) in
      if dt = adevs_inf E
      then Inr (s\<lparr>heap := (heap s)(m := (heap s m)\<lparr>tL := t, tN := adevs_inf E\<rparr>),
                  sched := sched_schedule E m (adevs_inf E) (sched s)\<rparr>)
      else if dt < adevs_zero E
      then Inl (Exception ''Negative time advance'' m,
                s\<lparr>heap := (heap s)(m := (heap s m)\<lparr>tL := t, tN := t + dt\<rparr>)\<rparr>)
      else Inr (s\<lparr>heap := (heap s)(m := (heap s m)\<lparr>tL := t, tN := t + dt\<rparr>),
                  sched := sched_schedule E m (t + dt) (sched s)\<rparr>))"
  by (simp add: schedule_def Let_def)

lemma schedule_Inr:
  fixes E :: "('s, 'v, 't::{plus,ord}, 'g, 'q) Env"
  assumes "schedule E m t s = Inr s'"
  shows "tL (heap s' m) = t" and "scheduled_consistently E m (heap s' m)"
    and "atomic_state (heap s' m') = atomic_state (heap s m')"
    and "inputs (heap s' m') = inputs (heap s m')"
    and "outputs (heap s' m') = outputs (heap s m')"
    and "m' \<noteq> m \<Longrightarrow> heap s' m' = heap s m'"
    and "trace s' = trace s" and "tNext s' = tNext s" and "active s' = active s"
    and "graph s' = graph s" and "listeners s' = listeners s"
    and "external_input s' = external_input s"
  using assms
  by (auto simp: schedule_cases Let_def scheduled_consistently_def split: if_splits)

lemma schedule_Inl:
  fixes E :: "('s, 'v, 't::{plus,ord}, 'g, 'q) Env"
  assumes "schedule E m t s = Inl (e, s')"
  shows "e = Exception ''Negative time advance'' m" and "trace s' = trace s"
    and "sched s' = sched s"
  using assms by (auto simp: schedule_cases Let_def split: if_splits)



subsection \<open>computeNextState\<close>

lemma transition_facts:
  fixes E :: "('s, 'v, 't::minus, 'g, 'q) Env"
  shows "tNext (transition E m s) = tNext s" and "active (transition E m s) = active s"
    and "graph (transition E m s) = graph s" and "listeners (transition E m s) = listeners s"
    and "sched (transition E m s) = sched s"
    and "external_input (transition E m s) = external_input s"
    and "m' \<noteq> m \<Longrightarrow> heap (transition E m s) m' = heap s m'"
    and "atomic_state (heap (transition E m s) m) =
           (if inputs (heap s m) = [] then delta_int E m (atomic_state (heap s m))
            else if tN (heap s m) = tNext s
            then delta_conf E m (inputs (heap s m)) (atomic_state (heap s m))
            else delta_ext E m (tNext s - tL (heap s m)) (inputs (heap s m))
                   (atomic_state (heap s m)))"
  by (simp_all add: transition_def Let_def notify_inputs_def notify_state_def
      call_delta_int_def call_delta_conf_def call_delta_ext_def)

lemma transition_trace:
  fixes E :: "('s, 'v, 't::minus, 'g, 'q) Env"
  shows "\<exists>ev. trace (transition E m s) = trace s @ ev
           \<and> filter is_transition ev =
               [if inputs (heap s m) = [] then Call_delta_int m
                else if tN (heap s m) = tNext s then Call_delta_conf m (inputs (heap s m))
                else Call_delta_ext m (tNext s - tL (heap s m)) (inputs (heap s m))]"
proof -
  have a: "filter is_transition (concat (map (\<lambda>x. map (\<lambda>l. Notify_inputEvent l m x (tNext s))
              (listeners s)) xs)) = []" for xs :: "'v PinValue list"
    by (induction xs) (simp_all add: filter_empty_conv)
  have b: "filter is_transition (map (\<lambda>l. Notify_stateChange l m (tNext s)) (listeners s)) = []"
    by (simp add: filter_empty_conv)
  show ?thesis
    by (simp add: transition_def Let_def notify_inputs_def notify_state_def
        call_delta_int_def call_delta_conf_def call_delta_ext_def a b)
qed

lemma due_transition_cong:
  "heap s1 m = heap s m \<Longrightarrow> tNext s1 = tNext s \<Longrightarrow> due_transition s1 m = due_transition s m"
  by (simp add: due_transition_def)

lemma transitions_Inr:
  fixes E :: "('s, 'v, 't::{plus,minus,ord}, 'g, 'q) Env"
  assumes "transitions E t ms s = Inr s'" and "distinct ms"
  shows "(\<exists>ev. trace s' = trace s @ ev \<and> filter is_transition ev = map (due_transition s) ms)
       \<and> (\<forall>m\<in>set ms. tL (heap s' m) = t \<and> scheduled_consistently E m (heap s' m)
            \<and> atomic_state (heap s' m) = atomic_state (heap (transition E m s) m))
       \<and> (\<forall>m. m \<notin> set ms \<longrightarrow> heap s' m = heap s m)
       \<and> tNext s' = tNext s \<and> graph s' = graph s"
  using assms
proof (induction ms arbitrary: s)
  case Nil
  then show ?case by simp
next
  case (Cons a ms)
  from Cons.prems obtain s1 where a: "schedule E a t (transition E a s) = Inr s1"
    and rest: "transitions E t ms s1 = Inr s'" and d: "distinct ms" and na: "a \<notin> set ms"
    by (auto split: sum.splits)
  note IH = Cons.IH [OF rest d]
  note A = schedule_Inr [OF a]
  note T = transition_facts [where E = E and m = a and s = s]
  have same': "heap s1 m = heap s m" if "m \<noteq> a" for m
    using A(6) [OF that] T(7) [OF that] by simp
  then have same: "\<forall>m. m \<noteq> a \<longrightarrow> heap s1 m = heap s m"
    by blast
  have tn: "tNext s1 = tNext s" using A(8) T(1) by simp
  from transition_trace [of E a s] obtain ev0 where
    ev0: "trace (transition E a s) = trace s @ ev0"
    and f0: "filter is_transition ev0 = [due_transition s a]"
    by (auto simp: due_transition_def)
  from IH obtain ev1 where ev1: "trace s' = trace s1 @ ev1"
    and f1: "filter is_transition ev1 = map (due_transition s1) ms"
    by blast
  have "map (due_transition s1) ms = map (due_transition s) ms"
    using na same tn by (intro map_cong refl due_transition_cong) auto
  with ev0 ev1 f0 f1 A(7) have tr: "\<exists>ev. trace s' = trace s @ ev
      \<and> filter is_transition ev = map (due_transition s) (a # ms)"
    by (intro exI [of _ "ev0 @ ev1"]) simp
  have ha: "heap s' a = heap s1 a" using IH na by blast
  have one: "tL (heap s' a) = t \<and> scheduled_consistently E a (heap s' a)
      \<and> atomic_state (heap s' a) = atomic_state (heap (transition E a s) a)"
    using ha A(1,2,3) by simp
  have others: "tL (heap s' m) = t \<and> scheduled_consistently E m (heap s' m)
      \<and> atomic_state (heap s' m) = atomic_state (heap (transition E m s) m)" if "m \<in> set ms" for m
  proof -
    from that na have ne: "m \<noteq> a" by auto
    have "atomic_state (heap (transition E m s1) m) = atomic_state (heap (transition E m s) m)"
      using same' [OF ne] tn by (simp add: transition_facts(8))
    with IH that show ?thesis by auto
  qed
  have untouched: "\<forall>m. m \<notin> set (a # ms) \<longrightarrow> heap s' m = heap s m"
    using IH same by auto
  from tr one others untouched IH tn A(10) T(3) show ?case by auto
qed

lemma transitions_Inl:
  fixes E :: "('s, 'v, 't::{plus,minus,ord}, 'g, 'q) Env"
  assumes "transitions E t ms s = Inl (e, s')" and "distinct ms"
  shows "\<exists>ev n. trace s' = trace s @ ev \<and> n < length ms
           \<and> filter is_transition ev = map (due_transition s) (take (Suc n) ms)
           \<and> e = Exception ''Negative time advance'' (ms ! n)"
  using assms
proof (induction ms arbitrary: s)
  case Nil
  then show ?case by simp
next
  case (Cons a ms)
  from transition_trace [of E a s] obtain ev0 where
    ev0: "trace (transition E a s) = trace s @ ev0"
    and f0: "filter is_transition ev0 = [due_transition s a]"
    by (auto simp: due_transition_def)
  show ?case
  proof (cases "schedule E a t (transition E a s)")
    case (Inl p)
    with Cons.prems have p: "p = (e, s')" by simp
    from schedule_Inl [OF Inl [unfolded p]] ev0 f0
    have "trace s' = trace s @ ev0 \<and> 0 < length (a # ms)
        \<and> filter is_transition ev0 = map (due_transition s) (take (Suc 0) (a # ms))
        \<and> e = Exception ''Negative time advance'' ((a # ms) ! 0)"
      by simp
    then show ?thesis by blast
  next
    case (Inr s1)
    with Cons.prems have rest: "transitions E t ms s1 = Inl (e, s')"
      and d: "distinct ms" and na: "a \<notin> set ms"
      by auto
    note A = schedule_Inr [OF Inr]
    note T = transition_facts [where E = E and m = a and s = s]
    have same': "heap s1 m = heap s m" if "m \<noteq> a" for m
      using A(6) [OF that] T(7) [OF that] by simp
    then have same: "\<forall>m. m \<noteq> a \<longrightarrow> heap s1 m = heap s m"
      by blast
    have tn: "tNext s1 = tNext s" using A(8) T(1) by simp
    from Cons.IH [OF rest d] obtain ev1 n where ev1: "trace s' = trace s1 @ ev1"
      and n: "n < length ms"
      and f1: "filter is_transition ev1 = map (due_transition s1) (take (Suc n) ms)"
      and e: "e = Exception ''Negative time advance'' (ms ! n)"
      by blast
    have "map (due_transition s1) (take (Suc n) ms) = map (due_transition s) (take (Suc n) ms)"
      using na same tn
      by (intro map_cong refl due_transition_cong) (auto dest: in_set_takeD)
    with ev0 ev1 f0 f1 A(7) n e
    have "trace s' = trace s @ (ev0 @ ev1) \<and> Suc n < length (a # ms)
        \<and> filter is_transition (ev0 @ ev1) = map (due_transition s) (take (Suc (Suc n)) (a # ms))
        \<and> e = Exception ''Negative time advance'' ((a # ms) ! Suc n)"
      by simp
    then show ?thesis by blast
  qed
qed

lemma change_couplings_facts:
  "heap (change_couplings f s) = heap s" "trace (change_couplings f s) = trace s"
  "sched (change_couplings f s) = sched s" "tNext (change_couplings f s) = tNext s"
  by (simp_all add: change_couplings_def)

lemma apply_pending_result:
  fixes E :: "('s, 'v, 't::{plus,ord}, 'g, 'q) Env"
  assumes "apply_pending E t ops s = r"
  shows "trace (left_by r) = trace s
       \<and> (\<forall>m. atomic_state (heap (left_by r) m) = atomic_state (heap s m))
       \<and> (\<forall>s'. r = Inr s' \<longrightarrow>
            (\<forall>m. heap s' m = heap s m
                 \<or> (tL (heap s' m) = t \<and> scheduled_consistently E m (heap s' m))))
       \<and> (\<forall>e s'. r = Inl (e, s') \<longrightarrow> (\<exists>m. e = Exception ''Negative time advance'' m))"
  using assms
proof (induction ops arbitrary: s r)
  case Nil
  then show ?case by (auto simp: left_by_def)
next
  case (Cons op ops)
  let ?s1 = "s\<lparr>graph := (graph s)\<lparr>pending := ops\<rparr>\<rparr>"
  have step: "?case" if "apply_pending E t ops s2 = r" and "heap s2 = heap s"
    and "trace s2 = trace s" for s2
    using Cons.IH [OF that(1)] that(2,3) by simp
  show ?case
  proof (cases op)
    case (ADD_ATOMIC m)
    let ?s2 = "change_couplings (add_atomic E m) ?s1"
    show ?thesis
    proof (cases "schedule E m t ?s2")
      case (Inl p)
      obtain e s' where p: "p = (e, s')" by (cases p)
      with Inl Cons.prems ADD_ATOMIC have r: "r = Inl (e, s')"
        by (simp add: Let_def)
      from Inl p have sch: "schedule E m t ?s2 = Inl (e, s')" by simp
      have "atomic_state (heap s' m') = atomic_state (heap s m')" for m'
        using sch by (auto simp: schedule_cases Let_def change_couplings_def split: if_splits)
      with schedule_Inl [OF sch] r show ?thesis
        by (auto simp: left_by_def change_couplings_def)
    next
      case (Inr s3)
      with Cons.prems ADD_ATOMIC have rest: "apply_pending E t ops s3 = r"
        by (simp add: Let_def)
      note A = schedule_Inr [OF Inr]
      note IH = Cons.IH [OF rest]
      have a: "trace (left_by r) = trace s"
        using IH A(7) by (simp add: change_couplings_def)
      have b: "\<forall>m'. atomic_state (heap (left_by r) m') = atomic_state (heap s m')"
        using IH A(3) by (simp add: change_couplings_def)
      have c: "heap s' m' = heap s m'
                 \<or> (tL (heap s' m') = t \<and> scheduled_consistently E m' (heap s' m'))"
        if "r = Inr s'" for s' m'
      proof (cases "m' = m")
        case True
        from IH that have "heap s' m = heap s3 m
            \<or> (tL (heap s' m) = t \<and> scheduled_consistently E m (heap s' m))"
          by blast
        with A(1,2) True show ?thesis by auto
      next
        case False
        from IH that have "heap s' m' = heap s3 m'
            \<or> (tL (heap s' m') = t \<and> scheduled_consistently E m' (heap s' m'))"
          by blast
        with A(6) [OF False] show ?thesis by (auto simp: change_couplings_def)
      qed
      from a b c IH show ?thesis by blast
    qed
  next
    case (REMOVE_ATOMIC m)
    with Cons.prems show ?thesis
      by (intro step [of "change_couplings (remove_atomic E m)
            (?s1\<lparr>sched := sched_schedule E m (adevs_inf E) (sched ?s1)\<rparr>)"])
        (simp_all add: Let_def change_couplings_def)
  next
    case (REMOVE_PIN p)
    with Cons.prems show ?thesis
      by (intro step [of "change_couplings (remove_pin E p) ?s1"])
        (simp_all add: Let_def change_couplings_def)
  next
    case (CONNECT_PIN_TO_PIN p0 p1)
    with Cons.prems show ?thesis
      by (intro step [of "change_couplings (connect_pin E p0 p1) ?s1"])
        (simp_all add: Let_def change_couplings_def)
  next
    case (DISCONNECT_PIN_FROM_PIN p0 p1)
    with Cons.prems show ?thesis
      by (intro step [of "change_couplings (disconnect_pin E p0 p1) ?s1"])
        (simp_all add: Let_def change_couplings_def)
  next
    case (CONNECT_PIN_TO_ATOMIC p m)
    with Cons.prems show ?thesis
      by (intro step [of "change_couplings (connect_atomic E p m) ?s1"])
        (simp_all add: Let_def change_couplings_def)
  next
    case (DISCONNECT_PIN_FROM_ATOMIC p m)
    with Cons.prems show ?thesis
      by (intro step [of "change_couplings (disconnect_atomic E p m) ?s1"])
        (simp_all add: Let_def change_couplings_def)
  qed
qed

lemma computeNextState_Inr:
  fixes E :: "('s, 'v, 't::{plus,minus,ord}, 'g, 'q) Env"
  assumes res: "computeNextState E s = Inr (s', t')" and d: "distinct (active s)"
  shows "(\<exists>ev. trace s' = trace s @ ev
            \<and> filter is_transition ev = map (due_transition s) (active s))"
    and "\<forall>m\<in>set (active s). atomic_state (heap s' m) = atomic_state (heap (transition E m s) m)"
    and "\<forall>m\<in>set (active s). tL (heap s' m) = tNext s + adevs_epsilon E
            \<and> scheduled_consistently E m (heap s' m)"
    and "\<forall>m. scheduled_consistently E m (heap s m) \<longrightarrow> scheduled_consistently E m (heap s' m)"
    and "t' = tNext s + adevs_epsilon E" and "tNext s' = minPriority E (sched s')"
    and "active s' = []"
proof -
  let ?t = "tNext s + adevs_epsilon E"
  from res obtain s1 where tr: "transitions E ?t (active s) s = Inr s1"
    by (auto simp: computeNextState_def Let_def split: sum.splits)
  let ?s2 = "s1\<lparr>active := [], graph := (graph s1)\<lparr>provisional := False\<rparr>\<rparr>"
  from res tr obtain s3 where ap: "apply_pending E ?t (pending (graph ?s2)) ?s2 = Inr s3"
    and s': "s' = s3\<lparr>graph := (graph s3)\<lparr>provisional := True\<rparr>,
                    tNext := minPriority E (sched s3)\<rparr>"
    and t': "t' = ?t"
    by (auto simp: computeNextState_def Let_def split: sum.splits)
  note T = transitions_Inr [OF tr d]
  note P = apply_pending_result [OF ap]
  have hp: "heap s' = heap s3" and tp: "trace s' = trace s3"
    using s' by simp_all
  from P have t3: "trace s3 = trace s1" by (simp add: left_by_def)
  from T tp t3 show "\<exists>ev. trace s' = trace s @ ev
            \<and> filter is_transition ev = map (due_transition s) (active s)"
    by simp
  from P have st3: "\<forall>m. atomic_state (heap s3 m) = atomic_state (heap s1 m)"
    by (simp add: left_by_def)
  with T hp show "\<forall>m\<in>set (active s). atomic_state (heap s' m)
      = atomic_state (heap (transition E m s) m)"
    by simp
  from P have h3: "\<forall>m. heap s3 m = heap s1 m
      \<or> (tL (heap s3 m) = ?t \<and> scheduled_consistently E m (heap s3 m))"
    by simp
  show "\<forall>m\<in>set (active s). tL (heap s' m) = ?t \<and> scheduled_consistently E m (heap s' m)"
  proof
    fix m assume "m \<in> set (active s)"
    with T have "tL (heap s1 m) = ?t \<and> scheduled_consistently E m (heap s1 m)" by blast
    with h3 [rule_format, of m] hp show "tL (heap s' m) = ?t \<and> scheduled_consistently E m (heap s' m)"
      by auto
  qed
  show "\<forall>m. scheduled_consistently E m (heap s m) \<longrightarrow> scheduled_consistently E m (heap s' m)"
  proof (intro allI impI)
    fix m assume c: "scheduled_consistently E m (heap s m)"
    have "scheduled_consistently E m (heap s1 m)"
    proof (cases "m \<in> set (active s)")
      case True
      with T show ?thesis by blast
    next
      case False
      with T have "heap s1 m = heap s m" by blast
      with c show ?thesis by simp
    qed
    with h3 [rule_format, of m] hp show "scheduled_consistently E m (heap s' m)"
      by auto
  qed
  show "t' = ?t" by (rule t')
  show "tNext s' = minPriority E (sched s')" using s' by simp
  from P ap have "active s3 = []"
  proof -
    have "active (left_by r) = active s0"
      if "apply_pending E t0 ops s0 = r" for t0 ops r
        and s0 :: "('s, 'v, 't, 'g, 'q) Simulator"
      using that
    proof (induction ops arbitrary: s0 r)
      case Nil
      then show ?case by (auto simp: left_by_def)
    next
      case (Cons op ops)
      show ?case
      proof (cases op)
        case (ADD_ATOMIC m)
        show ?thesis
        proof (cases "schedule E m t0 (change_couplings (add_atomic E m)
                        (s0\<lparr>graph := (graph s0)\<lparr>pending := ops\<rparr>\<rparr>))")
          case (Inl p)
          with Cons.prems ADD_ATOMIC show ?thesis
            by (auto simp: Let_def left_by_def schedule_cases change_couplings_def
                split: if_splits)
        next
          case (Inr s4)
          with Cons.prems ADD_ATOMIC have "apply_pending E t0 ops s4 = r"
            by (simp add: Let_def)
          from Cons.IH [OF this] schedule_Inr(9) [OF Inr] show ?thesis
            by (simp add: change_couplings_def)
        qed
      qed (use Cons in \<open>auto simp: Let_def change_couplings_def\<close>)
    qed
    from this [OF ap] show ?thesis by (simp add: left_by_def)
  qed
  with s' show "active s' = []" by simp
qed

lemma computeNextState_Inl:
  fixes E :: "('s, 'v, 't::{plus,minus,ord}, 'g, 'q) Env"
  assumes res: "computeNextState E s = Inl (e, s')" and d: "distinct (active s)"
  shows "\<exists>ev n. trace s' = trace s @ ev
           \<and> filter is_transition ev = map (due_transition s) (take n (active s))"
    and "\<exists>m. e = Exception ''Negative time advance'' m"
proof -
  let ?t = "tNext s + adevs_epsilon E"
  show "\<exists>ev n. trace s' = trace s @ ev
           \<and> filter is_transition ev = map (due_transition s) (take n (active s))"
  proof (cases "transitions E ?t (active s) s")
    case (Inl p)
    with res have "transitions E ?t (active s) s = Inl (e, s')"
      by (auto simp: computeNextState_def Let_def)
    from transitions_Inl [OF this d] show ?thesis by blast
  next
    case (Inr s1)
    let ?s2 = "s1\<lparr>active := [], graph := (graph s1)\<lparr>provisional := False\<rparr>\<rparr>"
    from res Inr have ap: "apply_pending E ?t (pending (graph ?s2)) ?s2 = Inl (e, s')"
      by (auto simp: computeNextState_def Let_def split: sum.splits)
    from apply_pending_result [OF ap] have "trace s' = trace s1"
      by (simp add: left_by_def)
    with transitions_Inr [OF Inr d] have "\<exists>ev. trace s' = trace s @ ev
        \<and> filter is_transition ev = map (due_transition s) (take (length (active s)) (active s))"
      by simp
    then show ?thesis by blast
  qed
  show "\<exists>m. e = Exception ''Negative time advance'' m"
  proof (cases "transitions E ?t (active s) s")
    case (Inl p)
    with res have "transitions E ?t (active s) s = Inl (e, s')"
      by (auto simp: computeNextState_def Let_def)
    from transitions_Inl [OF this d] show ?thesis by blast
  next
    case (Inr s1)
    let ?s2 = "s1\<lparr>active := [], graph := (graph s1)\<lparr>provisional := False\<rparr>\<rparr>"
    from res Inr have ap: "apply_pending E ?t (pending (graph ?s2)) ?s2 = Inl (e, s')"
      by (auto simp: computeNextState_def Let_def split: sum.splits)
    from apply_pending_result [OF ap] show ?thesis by blast
  qed
qed

text \<open>
  Claim C1.  \<^verbatim>\<open>computeNextState\<close> calls for each active atomic, in the order of the
  set, exactly one transition function: \<^verbatim>\<open>delta_int()\<close> when its input list is empty,
  \<^verbatim>\<open>delta_conf(inputs)\<close> when it has input and \<^verbatim>\<open>tN = tNext\<close>, and
  \<^verbatim>\<open>delta_ext(tNext - tL, inputs)\<close> when it has input and \<^verbatim>\<open>tN\<close> differs from
  \<^verbatim>\<open>tNext\<close>; the state of the atomic is the result of that function.  When the call
  throws, the transition calls made are those of the first atomics of the set.
\<close>

theorem computeNextState_dispatch:
  fixes E :: "('s, 'v, 't::{plus,minus,ord}, 'g, 'q) Env"
  assumes "distinct (active s)"
  shows
    "(\<forall>s' t'. computeNextState E s = Inr (s', t') \<longrightarrow>
        (\<exists>ev. trace s' = trace s @ ev
           \<and> filter is_transition ev =
               map (\<lambda>m. if inputs (heap s m) = [] then Call_delta_int m
                        else if tN (heap s m) = tNext s then Call_delta_conf m (inputs (heap s m))
                        else Call_delta_ext m (tNext s - tL (heap s m)) (inputs (heap s m)))
                   (active s))
        \<and> (\<forall>m\<in>set (active s).
              atomic_state (heap s' m) =
                (if inputs (heap s m) = [] then delta_int E m (atomic_state (heap s m))
                 else if tN (heap s m) = tNext s
                 then delta_conf E m (inputs (heap s m)) (atomic_state (heap s m))
                 else delta_ext E m (tNext s - tL (heap s m)) (inputs (heap s m))
                        (atomic_state (heap s m)))))
     \<and> (\<forall>e s'. computeNextState E s = Inl (e, s') \<longrightarrow>
          (\<exists>ev n. trace s' = trace s @ ev
             \<and> filter is_transition ev =
                 map (\<lambda>m. if inputs (heap s m) = [] then Call_delta_int m
                          else if tN (heap s m) = tNext s then Call_delta_conf m (inputs (heap s m))
                          else Call_delta_ext m (tNext s - tL (heap s m)) (inputs (heap s m)))
                     (take n (active s))))"
proof -
  have due: "due_transition s =
      (\<lambda>m. if inputs (heap s m) = [] then Call_delta_int m
            else if tN (heap s m) = tNext s then Call_delta_conf m (inputs (heap s m))
            else Call_delta_ext m (tNext s - tL (heap s m)) (inputs (heap s m)))"
    by (simp add: due_transition_def fun_eq_iff)
  have a: "\<exists>ev. trace s' = trace s @ ev \<and> filter is_transition ev = map (due_transition s) (active s)"
    if "computeNextState E s = Inr (s', t')" for s' t'
    using computeNextState_Inr(1) [OF that assms] .
  have b: "\<forall>m\<in>set (active s). atomic_state (heap s' m) =
        (if inputs (heap s m) = [] then delta_int E m (atomic_state (heap s m))
         else if tN (heap s m) = tNext s
         then delta_conf E m (inputs (heap s m)) (atomic_state (heap s m))
         else delta_ext E m (tNext s - tL (heap s m)) (inputs (heap s m))
                (atomic_state (heap s m)))"
    if "computeNextState E s = Inr (s', t')" for s' t'
    using computeNextState_Inr(2) [OF that assms] by (simp add: transition_facts(8))
  have c: "\<exists>ev n. trace s' = trace s @ ev
      \<and> filter is_transition ev = map (due_transition s) (take n (active s))"
    if "computeNextState E s = Inl (e, s')" for e s'
    using computeNextState_Inl(1) [OF that assms] .
  from a b c show ?thesis
    unfolding due by blast
qed

lemma S2_state: "\<exists>s' t'. computeNextState sys sim_S2_output = Inr (s', t')"
  by (simp add: computeNextState_def Let_def sim_S2_output_def sim_S2_def graph_S2_def
      schedule_cases transition_def notify_inputs_def notify_state_def call_delta_int_def
      call_delta_conf_def call_delta_ext_def sys_def fresh_def)

lemma early_input_state: "\<exists>s' t'. computeNextState sys sim_early_input = Inr (s', t')"
  by (simp add: computeNextState_def Let_def sim_early_input_def sim_S2_def graph_S2_def
      schedule_cases transition_def notify_inputs_def notify_state_def call_delta_int_def
      call_delta_conf_def call_delta_ext_def sys_def fresh_def)

theorem computeNextState_dispatch_witness:
  "(\<exists>s' t' ev. computeNextState sys sim_S2_output = Inr (s', t')
       \<and> trace s' = trace sim_S2_output @ ev
       \<and> filter is_transition ev = [Call_delta_int 1, Call_delta_conf 2 [\<lparr>pv_pin = 21, pv_value = 1\<rparr>]]
       \<and> atomic_state (heap s' 1) = (1, 0, 0) \<and> atomic_state (heap s' 2) = (0, 0, 1))
   \<and> (\<exists>s' t' ev. computeNextState sys sim_early_input = Inr (s', t')
       \<and> trace s' = trace sim_early_input @ ev
       \<and> filter is_transition ev = [Call_delta_ext 2 1 [\<lparr>pv_pin = 21, pv_value = 7\<rparr>]]
       \<and> atomic_state (heap s' 2) = (0, 1, 0))"
proof -
  have d1: "distinct (active sim_S2_output)" and d2: "distinct (active sim_early_input)"
    by (simp_all add: sim_S2_output_def sim_early_input_def)
  from S2_state obtain s1 t1 where r1: "computeNextState sys sim_S2_output = Inr (s1, t1)"
    by blast
  from early_input_state obtain s2 t2 where
    r2: "computeNextState sys sim_early_input = Inr (s2, t2)"
    by blast
  from computeNextState_dispatch [OF d1, of sys] r1
  have "\<exists>ev. trace s1 = trace sim_S2_output @ ev
       \<and> filter is_transition ev = [Call_delta_int 1, Call_delta_conf 2 [\<lparr>pv_pin = 21, pv_value = 1\<rparr>]]"
    and "atomic_state (heap s1 1) = (1, 0, 0) \<and> atomic_state (heap s1 2) = (0, 0, 1)"
    by (simp_all add: sim_S2_output_def sim_S2_def sys_def fresh_def)
  with r1 have first: "\<exists>s' t' ev. computeNextState sys sim_S2_output = Inr (s', t')
       \<and> trace s' = trace sim_S2_output @ ev
       \<and> filter is_transition ev = [Call_delta_int 1, Call_delta_conf 2 [\<lparr>pv_pin = 21, pv_value = 1\<rparr>]]
       \<and> atomic_state (heap s' 1) = (1, 0, 0) \<and> atomic_state (heap s' 2) = (0, 0, 1)"
    by blast
  from computeNextState_dispatch [OF d2, of sys] r2
  have "\<exists>ev. trace s2 = trace sim_early_input @ ev
       \<and> filter is_transition ev = [Call_delta_ext 2 1 [\<lparr>pv_pin = 21, pv_value = 7\<rparr>]]"
    and "atomic_state (heap s2 2) = (0, 1, 0)"
    by (simp_all add: sim_early_input_def sim_S2_def sys_def fresh_def)
  with r2 have second: "\<exists>s' t' ev. computeNextState sys sim_early_input = Inr (s', t')
       \<and> trace s' = trace sim_early_input @ ev
       \<and> filter is_transition ev = [Call_delta_ext 2 1 [\<lparr>pv_pin = 21, pv_value = 7\<rparr>]]
       \<and> atomic_state (heap s' 2) = (0, 1, 0)"
    by blast
  from first second show ?thesis by blast
qed




subsection \<open>computeNextOutput: rules for invariants of the routing\<close>

lemma set_set_insert [simp]: "set (set_insert x xs) = insert x (set xs)"
  by (induction xs) auto

lemma deliver_rule:
  assumes inv: "routing_invariant E g P" and "P (s, pa)" and "set cs \<subseteq> set (route E g q)"
  shows "P (deliver E v cs (s, pa))"
  using assms(2,3)
proof (induction cs arbitrary: s pa)
  case Nil
  then show ?case by simp
next
  case (Cons pc cs)
  obtain p c where pc: "pc = (p, c)" by (cases pc)
  with Cons.prems have mem: "(p, c) \<in> set (route E g q)" and sub: "set cs \<subseteq> set (route E g q)"
    by auto
  show ?case
  proof (cases "isMealyAtomic E c")
    case True
    with inv Cons.prems(1) mem
    have "P (push_input c \<lparr>pv_pin = p, pv_value = v\<rparr> s, set_insert c pa)"
      unfolding routing_invariant_def by blast
    from Cons.IH [OF this sub] True pc show ?thesis by simp
  next
    case False
    with inv Cons.prems(1) mem
    have "P (push_input c \<lparr>pv_pin = p, pv_value = v\<rparr> (s\<lparr>active := set_insert c (active s)\<rparr>), pa)"
      unfolding routing_invariant_def by blast
    from Cons.IH [OF this sub] False pc show ?thesis by simp
  qed
qed

lemma route_external_rule:
  assumes inv: "routing_invariant E g P" and "P sp"
  shows "P (route_external E ys sp)"
  using assms(2)
proof (induction ys arbitrary: sp)
  case Nil
  then show ?case by simp
next
  case (Cons y ys)
  obtain s pa where sp: "sp = (s, pa)" by (cases sp)
  with Cons.prems inv have g: "couplings (graph s) = g"
    unfolding routing_invariant_def by blast
  from Cons.prems sp have "P (deliver E (pv_value y) (route E g (pv_pin y)) (s, pa))"
    by (intro deliver_rule [OF inv]) auto
  from Cons.IH [OF this] sp g show ?case by simp
qed

lemma route_outputs_rule:
  assumes inv: "routing_invariant E g P" and "P sp"
  shows "P (route_outputs E m ys sp)"
  using assms(2)
proof (induction ys arbitrary: sp)
  case Nil
  then show ?case by simp
next
  case (Cons y ys)
  obtain s pa where sp: "sp = (s, pa)" by (cases sp)
  with Cons.prems inv have g: "couplings (graph s) = g"
    and n: "P (notify_output m y s, pa)"
    unfolding routing_invariant_def by blast+
  from n have "P (deliver E (pv_value y) (route E g (pv_pin y)) (notify_output m y s, pa))"
    by (intro deliver_rule [OF inv]) auto
  from Cons.IH [OF this] sp g show ?case by simp
qed

lemma imminent_outputs_rule:
  assumes inv: "routing_invariant E g P" and "P sp"
    and mealy: "\<And>s pa m. P (s, pa) \<Longrightarrow> m \<in> set imm \<Longrightarrow> isMealyAtomic E m \<Longrightarrow>
                  P (s, set_insert m pa)"
    and moore: "\<And>s pa m. P (s, pa) \<Longrightarrow> m \<in> set imm \<Longrightarrow> \<not> isMealyAtomic E m \<Longrightarrow>
                  P (call_output_func E m (s\<lparr>active := set_insert m (active s)\<rparr>), pa)"
  shows "P (imminent_outputs E imm sp)"
  using assms(2-)
proof (induction imm arbitrary: sp)
  case Nil
  then show ?case by simp
next
  case (Cons m imm)
  obtain s pa where sp: "sp = (s, pa)" by (cases sp)
  have mealy': "\<And>s pa m. P (s, pa) \<Longrightarrow> m \<in> set imm \<Longrightarrow> isMealyAtomic E m \<Longrightarrow>
                  P (s, set_insert m pa)"
    using Cons.prems(2) by simp
  have moore': "\<And>s pa m. P (s, pa) \<Longrightarrow> m \<in> set imm \<Longrightarrow> \<not> isMealyAtomic E m \<Longrightarrow>
                  P (call_output_func E m (s\<lparr>active := set_insert m (active s)\<rparr>), pa)"
    using Cons.prems(3) by simp
  show ?case
  proof (cases "isMealyAtomic E m")
    case True
    with Cons.prems(1,2) sp have "P (s, set_insert m pa)" by simp
    from Cons.IH [OF this mealy' moore'] True sp show ?thesis by simp
  next
    case False
    let ?s1 = "call_output_func E m (s\<lparr>active := set_insert m (active s)\<rparr>)"
    from False Cons.prems(1,3) sp have "P (?s1, pa)" by simp
    then have "P (route_outputs E m (outputs (heap ?s1 m)) (?s1, pa))"
      by (rule route_outputs_rule [OF inv])
    from Cons.IH [OF this mealy' moore'] False sp show ?thesis by (simp add: Let_def)
  qed
qed

lemma deliver_mealy_rule:
  assumes inv: "mealy_routing_invariant E g P" and "P (s, pa)"
    and "set cs \<subseteq> set (route E g q)"
  shows "case deliver_mealy E model v cs (s, pa) of
           Inr sp \<Rightarrow> P sp
         | Inl (e, s') \<Rightarrow> e = Exception ''Feedback loop of Mealy models is illegal'' model
                           \<and> (\<exists>pa'. P (s', pa'))"
  using assms(2,3)
proof (induction cs arbitrary: s pa)
  case Nil
  then show ?case by simp
next
  case (Cons pc cs)
  obtain p c where pc: "pc = (p, c)" by (cases pc)
  with Cons.prems have mem: "(p, c) \<in> set (route E g q)" and sub: "set cs \<subseteq> set (route E g q)"
    by auto
  show ?case
  proof (cases "isMealyAtomic E c")
    case True
    show ?thesis
    proof (cases "c \<in> set (active s)")
      case True
      with \<open>isMealyAtomic E c\<close> pc Cons.prems(1) show ?thesis by auto
    next
      case False
      with inv Cons.prems(1) mem \<open>isMealyAtomic E c\<close>
      have "P (push_input c \<lparr>pv_pin = p, pv_value = v\<rparr> s, set_insert c pa)"
        unfolding mealy_routing_invariant_def by blast
      from Cons.IH [OF this sub] False \<open>isMealyAtomic E c\<close> pc show ?thesis by simp
    qed
  next
    case False
    with inv Cons.prems(1) mem
    have "P (push_input c \<lparr>pv_pin = p, pv_value = v\<rparr> (s\<lparr>active := set_insert c (active s)\<rparr>), pa)"
      unfolding mealy_routing_invariant_def by blast
    from Cons.IH [OF this sub] False pc show ?thesis by simp
  qed
qed

lemma route_outputs_mealy_rule:
  assumes inv: "mealy_routing_invariant E g P" and "P sp"
  shows "case route_outputs_mealy E model ys sp of
           Inr sp1 \<Rightarrow> P sp1
         | Inl (e, s') \<Rightarrow> e = Exception ''Feedback loop of Mealy models is illegal'' model
                           \<and> (\<exists>pa'. P (s', pa'))"
  using assms(2)
proof (induction ys arbitrary: sp)
  case Nil
  then show ?case by simp
next
  case (Cons y ys)
  obtain s pa where sp: "sp = (s, pa)" by (cases sp)
  with Cons.prems inv have g: "couplings (graph s) = g"
    and n: "P (notify_output model y s, pa)"
    unfolding mealy_routing_invariant_def by blast+
  have d: "case deliver_mealy E model (pv_value y) (route E g (pv_pin y))
                  (notify_output model y s, pa) of
           Inr sp1 \<Rightarrow> P sp1
         | Inl (e, s') \<Rightarrow> e = Exception ''Feedback loop of Mealy models is illegal'' model
                           \<and> (\<exists>pa'. P (s', pa'))"
    using n by (intro deliver_mealy_rule [OF inv]) auto
  show ?case
  proof (cases "deliver_mealy E model (pv_value y) (route E g (pv_pin y))
                  (notify_output model y s, pa)")
    case (Inl a)
    with d sp g show ?thesis by (auto split: prod.splits)
  next
    case (Inr sp1)
    with d have "P sp1" by simp
    from Cons.IH [OF this] Inr sp g show ?thesis by simp
  qed
qed

lemma mealy_output_rule:
  fixes E :: "('s, 'v, 't::minus, 'g, 'q) Env"
  assumes inv: "mealy_routing_invariant E g P" and "P (s, pa)" and "pa \<noteq> []"
    and call: "\<And>s pa. P (s, pa) \<Longrightarrow> pa \<noteq> [] \<Longrightarrow>
                 P (call_mealy_output E (hd pa) (s\<lparr>active := set_insert (hd pa) (active s)\<rparr>),
                    removeAll (hd pa) pa)"
  shows "case mealy_output E (s, pa) of
           Inr sp1 \<Rightarrow> P sp1
         | Inl (e, s') \<Rightarrow> e = Exception ''Feedback loop of Mealy models is illegal'' (hd pa)
                           \<and> (\<exists>pa'. P (s', pa'))"
  unfolding mealy_output_def Let_def fst_conv snd_conv
  by (rule route_outputs_mealy_rule [OF inv]) (rule call [OF assms(2,3)])

lemma mealy_outputs_rule:
  fixes E :: "('s, 'v, 't::minus, 'g, 'q) Env"
  assumes res: "mealy_outputs E sp = Some r"
    and inv: "mealy_routing_invariant E g P" and "P sp"
    and call: "\<And>s pa. P (s, pa) \<Longrightarrow> pa \<noteq> [] \<Longrightarrow>
                 P (call_mealy_output E (hd pa) (s\<lparr>active := set_insert (hd pa) (active s)\<rparr>),
                    removeAll (hd pa) pa)"
  shows "(\<exists>pa'. P (left_by r, pa'))
       \<and> (\<forall>e s'. r = Inl (e, s') \<longrightarrow>
            (\<exists>m. e = Exception ''Feedback loop of Mealy models is illegal'' m))"
proof -
  define calls where "calls E' \<longleftrightarrow>
      (\<forall>s pa. P (s, pa) \<longrightarrow> pa \<noteq> [] \<longrightarrow>
         P (call_mealy_output E' (hd pa) (s\<lparr>active := set_insert (hd pa) (active s)\<rparr>),
            removeAll (hd pa) pa))" for E' :: "('s, 'v, 't, 'g, 'q) Env"
  define Q where "Q E' sp' r' \<longleftrightarrow>
      (mealy_routing_invariant E' g P \<longrightarrow> calls E' \<longrightarrow> P sp' \<longrightarrow>
        (\<exists>pa'. P (left_by r', pa'))
         \<and> (\<forall>e s'. r' = Inl (e, s') \<longrightarrow>
              (\<exists>m. e = Exception ''Feedback loop of Mealy models is illegal'' m)))"
    for E' :: "('s, 'v, 't, 'g, 'q) Env" and sp' r'
  have "Q E sp r"
  proof (rule mealy_outputs.raw_induct [where P = Q])
    show "mealy_outputs E sp = Some r" by (rule res)
  next
    fix f and E' :: "('s, 'v, 't, 'g, 'q) Env" and sp r
    assume IH: "\<And>E'' sp'' y. f E'' sp'' = Some y \<Longrightarrow> Q E'' sp'' y"
      and eq: "(if snd sp = [] then Some (Inr (fst sp))
                else case mealy_output E' sp of Inl e \<Rightarrow> Some (Inl e) | Inr sp1 \<Rightarrow> f E' sp1)
               = Some r"
    show "Q E' sp r"
      unfolding Q_def
    proof (intro impI)
      assume inv': "mealy_routing_invariant E' g P" and c: "calls E'" and P: "P sp"
      obtain s pa where sp: "sp = (s, pa)" by (cases sp)
      show "(\<exists>pa'. P (left_by r, pa'))
       \<and> (\<forall>e s'. r = Inl (e, s') \<longrightarrow>
            (\<exists>m. e = Exception ''Feedback loop of Mealy models is illegal'' m))"
      proof (cases "pa = []")
        case True
        with eq sp P show ?thesis by (auto simp: left_by_def)
      next
        case False
        have R: "case mealy_output E' (s, pa) of
           Inr sp1 \<Rightarrow> P sp1
         | Inl (e, s') \<Rightarrow> e = Exception ''Feedback loop of Mealy models is illegal'' (hd pa)
                           \<and> (\<exists>pa'. P (s', pa'))"
          using c by (intro mealy_output_rule [OF inv' P [unfolded sp] False])
            (simp add: calls_def)
        show ?thesis
        proof (cases "mealy_output E' (s, pa)")
          case (Inl a)
          obtain e s' where a: "a = (e, s')" by (cases a)
          from eq sp False Inl have "r = Inl a" by simp
          with R Inl a show ?thesis by (auto simp: left_by_def)
        next
          case (Inr sp1)
          with R have P1: "P sp1" by simp
          from eq sp False Inr have "f E' sp1 = Some r" by simp
          from IH [OF this] inv' c P1 show ?thesis
            unfolding Q_def by blast
        qed
      qed
    qed
  qed
  with inv assms(3) call show ?thesis
    by (simp add: Q_def calls_def)
qed

subsection \<open>The single steps\<close>

lemma push_input_simps [simp]:
  "graph (push_input c x s) = graph s" "listeners (push_input c x s) = listeners s"
  "external_input (push_input c x s) = external_input s" "active (push_input c x s) = active s"
  "sched (push_input c x s) = sched s" "tNext (push_input c x s) = tNext s"
  "trace (push_input c x s) = trace s @ [Push_input c x]"
  "tL (heap (push_input c x s) m) = tL (heap s m)"
  "tN (heap (push_input c x s) m) = tN (heap s m)"
  "outputs (heap (push_input c x s) m) = outputs (heap s m)"
  "atomic_state (heap (push_input c x s) m) = atomic_state (heap s m)"
  "inputs (heap (push_input c x s) m) = (if m = c then inputs (heap s m) @ [x] else inputs (heap s m))"
  by (simp_all add: push_input_def)

lemma notify_output_simps [simp]:
  "graph (notify_output m y s) = graph s" "listeners (notify_output m y s) = listeners s"
  "external_input (notify_output m y s) = external_input s"
  "active (notify_output m y s) = active s"
  "sched (notify_output m y s) = sched s" "tNext (notify_output m y s) = tNext s"
  "heap (notify_output m y s) = heap s"
  "trace (notify_output m y s)
     = trace s @ map (\<lambda>listener. Notify_outputEvent listener m y (tNext s)) (listeners s)"
  by (simp_all add: notify_output_def)

lemma call_output_func_simps [simp]:
  "graph (call_output_func E m s) = graph s" "listeners (call_output_func E m s) = listeners s"
  "external_input (call_output_func E m s) = external_input s"
  "active (call_output_func E m s) = active s"
  "sched (call_output_func E m s) = sched s" "tNext (call_output_func E m s) = tNext s"
  "trace (call_output_func E m s) = trace s @ [Call_output_func m]"
  "tL (heap (call_output_func E m s) m') = tL (heap s m')"
  "tN (heap (call_output_func E m s) m') = tN (heap s m')"
  "inputs (heap (call_output_func E m s) m') = inputs (heap s m')"
  "atomic_state (heap (call_output_func E m s) m') = atomic_state (heap s m')"
  "outputs (heap (call_output_func E m s) m') =
     (if m' = m then output_func E m (atomic_state (heap s m)) (outputs (heap s m))
      else outputs (heap s m'))"
  by (simp_all add: call_output_func_def)

lemma call_mealy_output_simps [simp]:
  fixes E :: "('s, 'v, 't::minus, 'g, 'q) Env"
  shows "graph (call_mealy_output E m s) = graph s"
    "listeners (call_mealy_output E m s) = listeners s"
    "external_input (call_mealy_output E m s) = external_input s"
    "active (call_mealy_output E m s) = active s"
    "sched (call_mealy_output E m s) = sched s" "tNext (call_mealy_output E m s) = tNext s"
    "tL (heap (call_mealy_output E m s) m') = tL (heap s m')"
    "tN (heap (call_mealy_output E m s) m') = tN (heap s m')"
    "inputs (heap (call_mealy_output E m s) m') = inputs (heap s m')"
    "atomic_state (heap (call_mealy_output E m s) m') = atomic_state (heap s m')"
    "m' \<noteq> m \<Longrightarrow> outputs (heap (call_mealy_output E m s) m') = outputs (heap s m')"
  by (simp_all add: call_mealy_output_def call_output_func_def call_confluent_output_func_def
      call_external_output_func_def)

lemma call_mealy_output_trace:
  fixes E :: "('s, 'v, 't::minus, 'g, 'q) Env"
  shows "trace (call_mealy_output E m s) = trace s @
     [if inputs (heap s m) = [] \<and> tN (heap s m) = tNext s then Call_output_func m
      else if tN (heap s m) = tNext s then Call_confluent_output_func m (inputs (heap s m))
      else Call_external_output_func m (tNext s - tL (heap s m)) (inputs (heap s m))]"
  by (simp add: call_mealy_output_def call_output_func_def call_confluent_output_func_def
      call_external_output_func_def)

lemma undo_prior_simps [simp]:
  "graph (undo_prior s) = graph s" "listeners (undo_prior s) = listeners s"
  "external_input (undo_prior s) = external_input s" "active (undo_prior s) = []"
  "sched (undo_prior s) = sched s" "tNext (undo_prior s) = tNext s"
  "trace (undo_prior s) = trace s"
  "tL (heap (undo_prior s) m) = tL (heap s m)" "tN (heap (undo_prior s) m) = tN (heap s m)"
  "atomic_state (heap (undo_prior s) m) = atomic_state (heap s m)"
  "inputs (heap (undo_prior s) m) = (if m \<in> set (active s) then [] else inputs (heap s m))"
  "outputs (heap (undo_prior s) m) = (if m \<in> set (active s) then [] else outputs (heap s m))"
  by (simp_all add: undo_prior_def)

lemma same_frame_refl [simp]: "same_frame s s"
  by (simp add: same_frame_def)

subsection \<open>The frame of computeNextOutput\<close>

lemma frame_routing:
  "routing_invariant E (couplings (graph s0))
     (\<lambda>sp. same_frame s0 (fst sp) \<and> external_input (fst sp) = xs)"
  by (simp add: routing_invariant_def same_frame_def)

lemma frame_mealy_routing:
  "mealy_routing_invariant E (couplings (graph s0))
     (\<lambda>sp. same_frame s0 (fst sp) \<and> external_input (fst sp) = xs)"
  by (simp add: mealy_routing_invariant_def same_frame_def)

lemma route_external_frame:
  "same_frame s (fst (route_external E ys (s, pa)))"
  using route_external_rule [OF frame_routing [of E s "external_input s"], of "(s, pa)" ys]
  by simp

lemma moore_outputs_cases:
  "moore_outputs E s =
     (let sp1 = route_external E (external_input s) (undo_prior s, []);
          s2 = (fst sp1)\<lparr>external_input := []\<rparr>
      in if minPriority E (sched s) = tNext s
         then imminent_outputs E (visitImminent E (sched s)) (s2, snd sp1)
         else (s2, snd sp1))"
proof -
  have "same_frame (undo_prior s) (fst (route_external E (external_input s) (undo_prior s, [])))"
    by (rule route_external_frame)
  then have "sched (fst (route_external E (external_input s) (undo_prior s, []))) = sched s"
    and "tNext (fst (route_external E (external_input s) (undo_prior s, []))) = tNext s"
    by (simp_all add: same_frame_def)
  then show ?thesis
    by (simp add: moore_outputs_def Let_def split_beta)
qed

lemma moore_outputs_rule:
  assumes inv: "routing_invariant E g P" and start: "P (undo_prior s, [])"
    and clear: "\<And>s pa. P (s, pa) \<Longrightarrow> P (s\<lparr>external_input := []\<rparr>, pa)"
    and mealy: "\<And>s' pa m. minPriority E (sched s) = tNext s \<Longrightarrow> P (s', pa) \<Longrightarrow>
                  m \<in> set (visitImminent E (sched s)) \<Longrightarrow> isMealyAtomic E m \<Longrightarrow>
                  P (s', set_insert m pa)"
    and moore: "\<And>s' pa m. minPriority E (sched s) = tNext s \<Longrightarrow> P (s', pa) \<Longrightarrow>
                  m \<in> set (visitImminent E (sched s)) \<Longrightarrow> \<not> isMealyAtomic E m \<Longrightarrow>
                  P (call_output_func E m (s'\<lparr>active := set_insert m (active s')\<rparr>), pa)"
  shows "P (moore_outputs E s)"
proof -
  let ?sp1 = "route_external E (external_input s) (undo_prior s, [])"
  have "P ?sp1" by (rule route_external_rule [OF inv start])
  then have c: "P ((fst ?sp1)\<lparr>external_input := []\<rparr>, snd ?sp1)"
    using clear [of "fst ?sp1" "snd ?sp1"] by simp
  show ?thesis
  proof (cases "minPriority E (sched s) = tNext s")
    case True
    have "P (imminent_outputs E (visitImminent E (sched s))
              ((fst ?sp1)\<lparr>external_input := []\<rparr>, snd ?sp1))"
      by (rule imminent_outputs_rule [OF inv c]) (use True mealy moore in auto)
    with True show ?thesis by (simp add: moore_outputs_cases Let_def)
  next
    case False
    with c show ?thesis by (simp add: moore_outputs_cases Let_def)
  qed
qed

lemma computeNextOutput_frame:
  fixes E :: "('s, 'v, 't::minus, 'g, 'q) Env"
  assumes "computeNextOutput E s = Some r"
  shows "same_frame s (left_by r)" and "external_input (left_by r) = []"
    and "\<forall>e s'. r = Inl (e, s') \<longrightarrow>
            (\<exists>m. e = Exception ''Feedback loop of Mealy models is illegal'' m)"
proof -
  define P where "P sp \<longleftrightarrow> same_frame s (fst sp) \<and> external_input (fst sp) = []"
    for sp :: "('s, 'v, 't, 'g, 'q) Simulator \<times> nat list"
  define P0 where "P0 sp \<longleftrightarrow> same_frame s (fst sp) \<and> external_input (fst sp) = external_input s"
    for sp :: "('s, 'v, 't, 'g, 'q) Simulator \<times> nat list"
  have r1: "routing_invariant E (couplings (graph s)) P"
    unfolding P_def by (rule frame_routing)
  have r2: "mealy_routing_invariant E (couplings (graph s)) P"
    unfolding P_def by (rule frame_mealy_routing)
  have r0: "routing_invariant E (couplings (graph s)) P0"
    unfolding P0_def by (rule frame_routing)
  let ?sp1 = "route_external E (external_input s) (undo_prior s, [])"
  have "P0 ?sp1"
    by (rule route_external_rule [OF r0]) (simp add: P0_def same_frame_def)
  then have c: "P ((fst ?sp1)\<lparr>external_input := []\<rparr>, snd ?sp1)"
    by (simp add: P_def P0_def same_frame_def)
  have m: "P (moore_outputs E s)"
  proof (cases "minPriority E (sched s) = tNext s")
    case True
    have "P (imminent_outputs E (visitImminent E (sched s))
            ((fst ?sp1)\<lparr>external_input := []\<rparr>, snd ?sp1))"
      by (rule imminent_outputs_rule [OF r1 c]) (simp_all add: P_def same_frame_def)
    with True show ?thesis by (simp add: moore_outputs_cases Let_def)
  next
    case False
    with c show ?thesis by (simp add: moore_outputs_cases Let_def)
  qed
  from assms have res: "mealy_outputs E (moore_outputs E s) = Some r"
    by (simp add: computeNextOutput_def)
  have "(\<exists>pa'. P (left_by r, pa'))
       \<and> (\<forall>e s'. r = Inl (e, s') \<longrightarrow>
            (\<exists>m. e = Exception ''Feedback loop of Mealy models is illegal'' m))"
    by (rule mealy_outputs_rule [OF res r2 m]) (simp add: P_def same_frame_def)
  then show "same_frame s (left_by r)" and "external_input (left_by r) = []"
    and "\<forall>e s'. r = Inl (e, s') \<longrightarrow>
            (\<exists>m. e = Exception ''Feedback loop of Mealy models is illegal'' m)"
    by (simp_all add: P_def)
qed

lemma computeNextOutput_rule:
  fixes E :: "('s, 'v, 't::minus, 'g, 'q) Env"
  assumes res: "computeNextOutput E s = Some r"
    and inv1: "routing_invariant E g P" and start: "P (undo_prior s, [])"
    and clear: "\<And>s pa. P (s, pa) \<Longrightarrow> P (s\<lparr>external_input := []\<rparr>, pa)"
    and mealy: "\<And>s' pa m. minPriority E (sched s) = tNext s \<Longrightarrow> P (s', pa) \<Longrightarrow>
                  m \<in> set (visitImminent E (sched s)) \<Longrightarrow> isMealyAtomic E m \<Longrightarrow>
                  P (s', set_insert m pa)"
    and moore: "\<And>s' pa m. minPriority E (sched s) = tNext s \<Longrightarrow> P (s', pa) \<Longrightarrow>
                  m \<in> set (visitImminent E (sched s)) \<Longrightarrow> \<not> isMealyAtomic E m \<Longrightarrow>
                  P (call_output_func E m (s'\<lparr>active := set_insert m (active s')\<rparr>), pa)"
    and link: "\<And>sp. P sp \<Longrightarrow> Q sp"
    and inv2: "mealy_routing_invariant E g Q"
    and call: "\<And>s pa. Q (s, pa) \<Longrightarrow> pa \<noteq> [] \<Longrightarrow>
                 Q (call_mealy_output E (hd pa) (s\<lparr>active := set_insert (hd pa) (active s)\<rparr>),
                    removeAll (hd pa) pa)"
  shows "\<exists>pa'. Q (left_by r, pa')"
proof -
  have "P (moore_outputs E s)"
    by (rule moore_outputs_rule [OF inv1 start clear mealy moore])
  then have q: "Q (moore_outputs E s)" by (rule link)
  from res have "mealy_outputs E (moore_outputs E s) = Some r"
    by (simp add: computeNextOutput_def)
  from mealy_outputs_rule [OF this inv2 q call] show ?thesis by blast
qed

subsection \<open>computeNextOutput returns\<close>

text \<open>
  Every turn of the loop over \<^verbatim>\<open>pending_active\<close> makes a Mealy model active that was not,
  and a model enters \<^verbatim>\<open>pending_active\<close> only while it is not active: with finitely many
  Mealy receivers in the graph the loop ends, by \<^verbatim>\<open>return\<close> or by \<^verbatim>\<open>throw\<close>.
\<close>

lemma mealy_outputs_returns:
  fixes E :: "('s, 'v, 't::minus, 'g, 'q) Env"
    and sp :: "('s, 'v, 't, 'g, 'q) Simulator \<times> nat list"
  assumes fin: "finite V"
    and recv: "\<forall>q p c. (p, c) \<in> set (route E g q) \<longrightarrow> isMealyAtomic E c \<longrightarrow> c \<in> V"
    and g: "couplings (graph (fst sp)) = g"
    and pa: "\<forall>m\<in>set (snd sp). isMealyAtomic E m \<and> m \<in> V \<and> m \<notin> set (active (fst sp))"
  shows "\<exists>r. mealy_outputs E sp = Some r"
  using g pa
proof (induction "card (V - set (active (fst sp)))" arbitrary: sp rule: less_induct)
  case less
  show ?case
  proof (cases "snd sp = []")
    case True
    then show ?thesis by (subst mealy_outputs.simps) simp
  next
    case False
    define model where "model = hd (snd sp)"
    define s2 where
      "s2 = call_mealy_output E model ((fst sp)\<lparr>active := set_insert model (active (fst sp))\<rparr>)"
    define P where "P sp' \<longleftrightarrow>
        couplings (graph (fst sp')) = g
        \<and> insert model (set (active (fst sp))) \<subseteq> set (active (fst sp'))
        \<and> (\<forall>m\<in>set (snd sp'). isMealyAtomic E m \<and> m \<in> V \<and> m \<notin> set (active (fst sp')))"
      for sp' :: "('s, 'v, 't, 'g, 'q) Simulator \<times> nat list"
    have inv: "mealy_routing_invariant E g P"
      unfolding mealy_routing_invariant_def P_def using recv by auto
    from False have model: "model \<in> set (snd sp)"
      by (simp add: model_def)
    have start: "P (s2, removeAll model (snd sp))"
      using less.prems by (auto simp: P_def s2_def)
    have mo: "mealy_output E sp
        = route_outputs_mealy E model (outputs (heap s2 model)) (s2, removeAll model (snd sp))"
      by (simp add: mealy_output_def Let_def model_def s2_def)
    show ?thesis
    proof (cases "mealy_output E sp")
      case (Inl e)
      with False show ?thesis by (subst mealy_outputs.simps) simp
    next
      case (Inr sp1)
      with mo have "route_outputs_mealy E model (outputs (heap s2 model))
          (s2, removeAll model (snd sp)) = Inr sp1"
        by simp
      with route_outputs_mealy_rule [OF inv start, of model "outputs (heap s2 model)"]
      have p1: "P sp1" by simp
      from model less.prems have "model \<in> V - set (active (fst sp))" by simp
      moreover from p1 have "model \<notin> V - set (active (fst sp1))"
        and "V - set (active (fst sp1)) \<subseteq> V - set (active (fst sp))"
        by (auto simp: P_def)
      ultimately have "V - set (active (fst sp1)) \<subset> V - set (active (fst sp))" by blast
      with fin have "card (V - set (active (fst sp1))) < card (V - set (active (fst sp)))"
        by (simp add: psubset_card_mono)
      moreover from p1 have "couplings (graph (fst sp1)) = g"
        and "\<forall>m\<in>set (snd sp1). isMealyAtomic E m \<and> m \<in> V \<and> m \<notin> set (active (fst sp1))"
        by (simp_all add: P_def)
      ultimately have "\<exists>r. mealy_outputs E sp1 = Some r"
        by (rule less.hyps)
      with False Inr show ?thesis by (subst mealy_outputs.simps) simp
    qed
  qed
qed

lemma moore_outputs_pending:
  fixes E :: "('s, 'v, 't, 'g, 'q) Env" and s :: "('s, 'v, 't, 'g, 'q) Simulator"
  shows "couplings (graph (fst (moore_outputs E s))) = couplings (graph s)
   \<and> (\<forall>m\<in>set (snd (moore_outputs E s)). isMealyAtomic E m)
   \<and> (\<forall>m\<in>set (active (fst (moore_outputs E s))). \<not> isMealyAtomic E m)"
proof -
  define P where "P sp \<longleftrightarrow>
      couplings (graph (fst sp)) = couplings (graph s)
      \<and> (\<forall>m\<in>set (snd sp). isMealyAtomic E m)
      \<and> (\<forall>m\<in>set (active (fst sp)). \<not> isMealyAtomic E m)"
    for sp :: "('s, 'v, 't, 'g, 'q) Simulator \<times> nat list"
  have inv: "routing_invariant E (couplings (graph s)) P"
    unfolding routing_invariant_def P_def by auto
  have "P (moore_outputs E s)"
    by (rule moore_outputs_rule [OF inv]) (auto simp: P_def)
  then show ?thesis by (simp add: P_def)
qed

lemma computeNextOutput_returns:
  fixes E :: "('s, 'v, 't::minus, 'g, 'q) Env"
  assumes "finite (mealy_receivers E (couplings (graph s)))"
  shows "\<exists>r. computeNextOutput E s = Some r"
proof -
  let ?sp = "moore_outputs E s"
  let ?V = "mealy_receivers E (couplings (graph s)) \<union> set (snd ?sp)"
  have "\<exists>r. mealy_outputs E ?sp = Some r"
  proof (rule mealy_outputs_returns [where V = ?V and g = "couplings (graph s)"])
    show "finite ?V" using assms by simp
    show "\<forall>q p c. (p, c) \<in> set (route E (couplings (graph s)) q) \<longrightarrow> isMealyAtomic E c \<longrightarrow> c \<in> ?V"
      by (auto simp: mealy_receivers_def)
    show "couplings (graph (fst ?sp)) = couplings (graph s)"
      using moore_outputs_pending [of E s] by simp
    show "\<forall>m\<in>set (snd ?sp). isMealyAtomic E m \<and> m \<in> ?V \<and> m \<notin> set (active (fst ?sp))"
      using moore_outputs_pending [of E s] by auto
  qed
  then show ?thesis by (simp add: computeNextOutput_def)
qed

subsection \<open>The injected input\<close>

lemma deliver_graph: "graph (fst (deliver E v cs (s, pa))) = graph s"
  by (induction cs arbitrary: s pa) auto

lemma deliver_trace:
  "trace (fst (deliver E v cs (s, pa)))
     = trace s @ map (\<lambda>(p, c). Push_input c \<lparr>pv_pin = p, pv_value = v\<rparr>) cs"
  by (induction cs arbitrary: s pa) auto

lemma route_external_trace:
  "trace (fst (route_external E ys (s, pa)))
     = trace s @ injected_pushes E (couplings (graph s)) ys"
proof (induction ys arbitrary: s pa)
  case Nil
  show ?case by (simp add: injected_pushes_def)
next
  case (Cons y ys)
  let ?d = "deliver E (pv_value y) (route E (couplings (graph s)) (pv_pin y)) (s, pa)"
  have "trace (fst (route_external E ys (fst ?d, snd ?d)))
      = trace (fst ?d) @ injected_pushes E (couplings (graph (fst ?d))) ys"
    by (rule Cons.IH)
  then show ?case
    by (simp add: deliver_graph deliver_trace injected_pushes_def)
qed

lemma inputs_pushed_append [simp]:
  "inputs_pushed c (xs @ ys) = inputs_pushed c xs @ inputs_pushed c ys"
  by (induction c xs rule: inputs_pushed.induct) simp_all

lemma inputs_pushed_notify [simp]:
  "inputs_pushed c (map (\<lambda>listener. Notify_outputEvent listener m y t) ls) = []"
  by (induction ls) simp_all

text \<open>The rule for the part of \<^verbatim>\<open>computeNextOutput\<close> that follows the injected input.\<close>

lemma outputs_after_injection_rule:
  fixes E :: "('s, 'v, 't::minus, 'g, 'q) Env"
  assumes res: "computeNextOutput E s = Some r"
    and inv1: "routing_invariant E g P" and inv2: "mealy_routing_invariant E g P"
    and start: "P ((fst (route_external E (external_input s) (undo_prior s, [])))
                     \<lparr>external_input := []\<rparr>,
                   snd (route_external E (external_input s) (undo_prior s, [])))"
    and mealy: "\<And>s' pa m. minPriority E (sched s) = tNext s \<Longrightarrow> P (s', pa) \<Longrightarrow>
                  m \<in> set (visitImminent E (sched s)) \<Longrightarrow> isMealyAtomic E m \<Longrightarrow>
                  P (s', set_insert m pa)"
    and moore: "\<And>s' pa m. minPriority E (sched s) = tNext s \<Longrightarrow> P (s', pa) \<Longrightarrow>
                  m \<in> set (visitImminent E (sched s)) \<Longrightarrow> \<not> isMealyAtomic E m \<Longrightarrow>
                  P (call_output_func E m (s'\<lparr>active := set_insert m (active s')\<rparr>), pa)"
    and call: "\<And>s pa. P (s, pa) \<Longrightarrow> pa \<noteq> [] \<Longrightarrow>
                 P (call_mealy_output E (hd pa) (s\<lparr>active := set_insert (hd pa) (active s)\<rparr>),
                    removeAll (hd pa) pa)"
  shows "\<exists>pa'. P (left_by r, pa')"
proof -
  let ?sp1 = "route_external E (external_input s) (undo_prior s, [])"
  have m: "P (moore_outputs E s)"
  proof (cases "minPriority E (sched s) = tNext s")
    case True
    have "P (imminent_outputs E (visitImminent E (sched s))
              ((fst ?sp1)\<lparr>external_input := []\<rparr>, snd ?sp1))"
      by (rule imminent_outputs_rule [OF inv1 start]) (use True mealy moore in auto)
    with True show ?thesis by (simp add: moore_outputs_cases Let_def)
  next
    case False
    with start show ?thesis by (simp add: moore_outputs_cases Let_def)
  qed
  from res have "mealy_outputs E (moore_outputs E s) = Some r"
    by (simp add: computeNextOutput_def)
  from mealy_outputs_rule [OF this inv2 m call] show ?thesis by blast
qed

text \<open>After the injected input is routed, the trace has grown by exactly the pushes of
  the injected values, every input list by the values pushed to it, and the pending models
  are Mealy models that have input.\<close>

lemma route_external_result:
  fixes E :: "('s, 'v, 't, 'g, 'q) Env" and s :: "('s, 'v, 't, 'g, 'q) Simulator"
  defines "sp1 \<equiv> route_external E (external_input s) (undo_prior s, [])"
  shows "graph (fst sp1) = graph s"
    and "trace (fst sp1) = trace s @ injected_pushes E (couplings (graph s)) (external_input s)"
    and "\<forall>c. inputs (heap (fst sp1) c) = inputs (heap (undo_prior s) c)
            @ inputs_pushed c (injected_pushes E (couplings (graph s)) (external_input s))"
    and "\<forall>m\<in>set (snd sp1). isMealyAtomic E m \<and> inputs (heap (fst sp1) m) \<noteq> []"
proof -
  define P where "P sp \<longleftrightarrow>
      graph (fst sp) = graph s
      \<and> (\<exists>ev. trace (fst sp) = trace s @ ev
            \<and> (\<forall>c. inputs (heap (fst sp) c) = inputs (heap (undo_prior s) c) @ inputs_pushed c ev))
      \<and> (\<forall>m\<in>set (snd sp). isMealyAtomic E m \<and> inputs (heap (fst sp) m) \<noteq> [])"
    for sp :: "('s, 'v, 't, 'g, 'q) Simulator \<times> nat list"
  have inv: "routing_invariant E (couplings (graph s)) P"
    unfolding routing_invariant_def P_def by auto
  have "P sp1"
    unfolding sp1_def by (rule route_external_rule [OF inv]) (simp add: P_def)
  moreover have t: "trace (fst sp1)
      = trace s @ injected_pushes E (couplings (graph s)) (external_input s)"
    unfolding sp1_def using route_external_trace [of E "external_input s" "undo_prior s" "[]"]
    by simp
  ultimately show "graph (fst sp1) = graph s"
    and "trace (fst sp1) = trace s @ injected_pushes E (couplings (graph s)) (external_input s)"
    and "\<forall>c. inputs (heap (fst sp1) c) = inputs (heap (undo_prior s) c)
            @ inputs_pushed c (injected_pushes E (couplings (graph s)) (external_input s))"
    and "\<forall>m\<in>set (snd sp1). isMealyAtomic E m \<and> inputs (heap (fst sp1) m) \<noteq> []"
    by (auto simp: P_def)
qed

subsection \<open>Without the imminent models\<close>

text \<open>
  Claim C10.  After \<^verbatim>\<open>setNextTime(t)\<close> with \<open>t\<close> different from the minimum of the schedule,
  \<^verbatim>\<open>computeNextOutput\<close> skips the loop over the imminent models: what it does before the
  loop over \<^verbatim>\<open>pending_active\<close> is to route the injected input.  The call returns; the events
  it adds to the trace are the pushes of the injected values followed by events among which
  there is no call of \<^verbatim>\<open>output_func\<close>, and every output function called is the confluent or
  the external output function of a Mealy atomic, on a bag of inputs that is not empty.
\<close>

theorem no_imminent_output_off_schedule:
  fixes E :: "('s, 'v, 't::minus, 'g, 'q) Env"
  assumes off: "t \<noteq> minPriority E (sched s)"
    and fin: "finite (mealy_receivers E (couplings (graph s)))"
  shows
    "moore_outputs E (setNextTime s t) =
       ((fst (route_external E (external_input s) (undo_prior (setNextTime s t), [])))
          \<lparr>external_input := []\<rparr>,
        snd (route_external E (external_input s) (undo_prior (setNextTime s t), [])))
     \<and> (\<exists>r ev. computeNextOutput E (setNextTime s t) = Some r
          \<and> trace (left_by r)
              = trace s @ injected_pushes E (couplings (graph s)) (external_input s) @ ev
          \<and> (\<forall>m. Call_output_func m \<notin> set ev)
          \<and> (\<forall>e\<in>set ev. \<forall>m. output_call_of e = Some m \<longrightarrow>
                isMealyAtomic E m
                \<and> (\<exists>xb. xb \<noteq> [] \<and> (e = Call_confluent_output_func m xb
                                     \<or> (\<exists>d. e = Call_external_output_func m d xb)))))"
proof -
  define s1 where "s1 = setNextTime s t"
  define inj where "inj = injected_pushes E (couplings (graph s)) (external_input s)"
  have s1: "graph s1 = graph s" "external_input s1 = external_input s" "trace s1 = trace s"
    "sched s1 = sched s" "tNext s1 = t"
    by (simp_all add: s1_def setNextTime_def)
  from off have off1: "minPriority E (sched s1) \<noteq> tNext s1"
    by (simp add: s1)
  from fin have "finite (mealy_receivers E (couplings (graph s1)))"
    by (simp add: s1)
  then obtain r where res: "computeNextOutput E s1 = Some r"
    using computeNextOutput_returns by blast
  define ok where "ok e \<longleftrightarrow>
      (\<forall>m. output_call_of e = Some m \<longrightarrow>
         isMealyAtomic E m
         \<and> (\<exists>xb. xb \<noteq> [] \<and> (e = Call_confluent_output_func m xb
                              \<or> (\<exists>d. e = Call_external_output_func m d xb))))"
    for e :: "('v, 't) Event"
  define P where "P sp \<longleftrightarrow>
      couplings (graph (fst sp)) = couplings (graph s)
      \<and> (\<exists>ev. trace (fst sp) = trace s @ inj @ ev \<and> (\<forall>e\<in>set ev. ok e))
      \<and> (\<forall>m\<in>set (snd sp). isMealyAtomic E m \<and> inputs (heap (fst sp) m) \<noteq> [])"
    for sp :: "('s, 'v, 't, 'g, 'q) Simulator \<times> nat list"
  have inv1: "routing_invariant E (couplings (graph s)) P"
    unfolding routing_invariant_def P_def by (auto simp: ok_def)
  have inv2: "mealy_routing_invariant E (couplings (graph s)) P"
    unfolding mealy_routing_invariant_def P_def by (auto simp: ok_def)
  let ?sp1 = "route_external E (external_input s1) (undo_prior s1, [])"
  have start: "P ((fst ?sp1)\<lparr>external_input := []\<rparr>, snd ?sp1)"
    using route_external_result [of E s1] by (simp add: P_def s1 inj_def)
  have call: "P (call_mealy_output E (hd pa) (s2\<lparr>active := set_insert (hd pa) (active s2)\<rparr>),
                  removeAll (hd pa) pa)"
    if "P (s2, pa)" and "pa \<noteq> []" for s2 pa
  proof -
    from that have hd: "isMealyAtomic E (hd pa)" "inputs (heap s2 (hd pa)) \<noteq> []"
      by (auto simp: P_def)
    from that obtain ev where ev: "trace s2 = trace s @ inj @ ev" "\<forall>e\<in>set ev. ok e"
      by (auto simp: P_def)
    let ?s3 = "s2\<lparr>active := set_insert (hd pa) (active s2)\<rparr>"
    have "\<exists>e. trace (call_mealy_output E (hd pa) ?s3) = trace ?s3 @ [e] \<and> ok e"
      using hd by (simp add: call_mealy_output_trace ok_def)
    with ev have "\<exists>ev. trace (call_mealy_output E (hd pa) ?s3) = trace s @ inj @ ev
        \<and> (\<forall>e\<in>set ev. ok e)"
      by auto
    with that show ?thesis
      by (simp add: P_def)
  qed
  have "\<exists>pa'. P (left_by r, pa')"
    by (rule outputs_after_injection_rule [OF res inv1 inv2 start _ _ call])
      (use off1 in auto)
  then obtain ev where ev: "trace (left_by r) = trace s @ inj @ ev" "\<forall>e\<in>set ev. ok e"
    by (auto simp: P_def)
  from ev(2) have "\<forall>m. Call_output_func m \<notin> set ev"
    by (auto simp: ok_def)
  with res ev have "\<exists>r ev. computeNextOutput E s1 = Some r
      \<and> trace (left_by r) = trace s @ inj @ ev
      \<and> (\<forall>m. Call_output_func m \<notin> set ev)
      \<and> (\<forall>e\<in>set ev. ok e)"
    by blast
  moreover have "moore_outputs E s1 = ((fst ?sp1)\<lparr>external_input := []\<rparr>, snd ?sp1)"
    using off1 by (simp add: moore_outputs_cases Let_def)
  ultimately show ?thesis
    unfolding ok_def s1_def [symmetric] inj_def [symmetric] by (simp add: s1)
qed

lemma sys_fields:
  "route sys = edges_route" "isMealyAtomic sys = (\<lambda>m. m = 5 \<or> m = 6)"
  "minPriority sys = list_minPriority 2147483647"
  "visitImminent sys = list_visitImminent 2147483647"
  "output_func sys = (\<lambda>m st yb. yb @ [\<lparr>pv_pin = 10 * m, pv_value = 1\<rparr>])"
  "confluent_output_func sys = (\<lambda>m st xb yb. yb @ [\<lparr>pv_pin = 10 * m, pv_value = length xb\<rparr>])"
  "external_output_func sys = (\<lambda>m st dt xb yb. yb @ [\<lparr>pv_pin = 10 * m, pv_value = length xb\<rparr>])"
  by (simp_all add: sys_def)

lemma sys_mealy_receivers: "finite (mealy_receivers sys g)"
proof (rule finite_subset)
  show "mealy_receivers sys g \<subseteq> {5, 6}"
    by (auto simp: mealy_receivers_def sys_fields)
qed simp

lemma inject_forced_run:
  "\<exists>s'. computeNextOutput sys
           (setNextTime (injectInput sim_inject \<lparr>pv_pin = 7, pv_value = 9\<rparr>) 0) = Some (Inr s')
     \<and> trace s' = [Push_input 5 \<lparr>pv_pin = 51, pv_value = 9\<rparr>,
                   Call_external_output_func 5 0 [\<lparr>pv_pin = 51, pv_value = 9\<rparr>],
                   Notify_outputEvent 0 5 \<lparr>pv_pin = 50, pv_value = 1\<rparr> 0,
                   Push_input 2 \<lparr>pv_pin = 21, pv_value = 1\<rparr>]"
  apply (simp add: computeNextOutput_def moore_outputs_def setNextTime_def injectInput_def
      sim_inject_def graph_inject_def sys_fields edges_route_def list_minPriority_def
      undo_prior_def push_input_def fresh_def)
  apply (subst mealy_outputs.simps)
  apply (simp add: mealy_output_def call_mealy_output_def call_external_output_func_def
      call_output_func_def call_confluent_output_func_def notify_output_def push_input_def
      sys_fields edges_route_def Let_def)
  apply (subst mealy_outputs.simps)
  apply simp
  done

theorem no_imminent_output_off_schedule_witness:
  "(0::int) \<noteq> minPriority sys (sched (injectInput sim_inject \<lparr>pv_pin = 7, pv_value = 9\<rparr>))
   \<and> finite (mealy_receivers sys
               (couplings (graph (injectInput sim_inject \<lparr>pv_pin = 7, pv_value = 9\<rparr>))))
   \<and> (\<exists>r ev. computeNextOutput sys
                (setNextTime (injectInput sim_inject \<lparr>pv_pin = 7, pv_value = 9\<rparr>) 0) = Some r
          \<and> trace (left_by r) = Push_input 5 \<lparr>pv_pin = 51, pv_value = 9\<rparr> # ev
          \<and> (\<forall>m. Call_output_func m \<notin> set ev))
   \<and> (\<exists>s'. computeNextOutput sys
              (setNextTime (injectInput sim_inject \<lparr>pv_pin = 7, pv_value = 9\<rparr>) 0)
              = Some (Inr s')
          \<and> trace s' = [Push_input 5 \<lparr>pv_pin = 51, pv_value = 9\<rparr>,
                        Call_external_output_func 5 0 [\<lparr>pv_pin = 51, pv_value = 9\<rparr>],
                        Notify_outputEvent 0 5 \<lparr>pv_pin = 50, pv_value = 1\<rparr> 0,
                        Push_input 2 \<lparr>pv_pin = 21, pv_value = 1\<rparr>])"
proof -
  let ?s = "injectInput sim_inject \<lparr>pv_pin = 7, pv_value = 9\<rparr>"
  have a: "(0::int) \<noteq> minPriority sys (sched ?s)"
    by (simp add: sys_fields injectInput_def sim_inject_def list_minPriority_def)
  have b: "finite (mealy_receivers sys (couplings (graph ?s)))"
    by (rule sys_mealy_receivers)
  have inj: "trace ?s @ injected_pushes sys (couplings (graph ?s)) (external_input ?s) @ ev
      = Push_input 5 \<lparr>pv_pin = 51, pv_value = 9\<rparr> # ev" for ev
    by (simp add: injected_pushes_def injectInput_def sim_inject_def graph_inject_def sys_fields
        edges_route_def)
  from no_imminent_output_off_schedule [OF a b]
  have c: "\<exists>r ev. computeNextOutput sys (setNextTime ?s 0) = Some r
      \<and> trace (left_by r) = Push_input 5 \<lparr>pv_pin = 51, pv_value = 9\<rparr> # ev
      \<and> (\<forall>m. Call_output_func m \<notin> set ev)"
    unfolding inj by blast
  from a b c inject_forced_run show ?thesis by blast
qed

subsection \<open>injectInput\<close>

text \<open>
  Claim C8.  \<^verbatim>\<open>injectInput\<close> appends its value to the buffer of injected input and changes
  nothing else.  The next call of \<^verbatim>\<open>computeNextOutput\<close> returns and leaves the buffer empty;
  the events it adds to the trace begin with the pushes of every buffered value to the
  receivers of its pin, and the input list of every model is what the first loop of the
  call left of it followed by the values pushed to the model.  A second call finds nothing
  to route before it visits the imminent models.
\<close>

theorem injected_input_consumed:
  fixes E :: "('s, 'v, 't::minus, 'g, 'q) Env"
  assumes fin: "finite (mealy_receivers E (couplings (graph s)))"
  shows
    "injectInput s x = s\<lparr>external_input := external_input s @ [x]\<rparr>
     \<and> (\<exists>r ev. computeNextOutput E (injectInput s x) = Some r
          \<and> external_input (left_by r) = []
          \<and> same_frame s (left_by r)
          \<and> trace (left_by r)
              = trace s @ injected_pushes E (couplings (graph s)) (external_input s @ [x]) @ ev
          \<and> (\<forall>c. inputs (heap (left_by r) c)
                  = (if c \<in> set (active s) then [] else inputs (heap s c))
                    @ inputs_pushed c
                        (injected_pushes E (couplings (graph s)) (external_input s @ [x]) @ ev))
          \<and> moore_outputs E (left_by r)
              = (if minPriority E (sched s) = tNext s
                 then imminent_outputs E (visitImminent E (sched s)) (undo_prior (left_by r), [])
                 else (undo_prior (left_by r), [])))"
proof -
  define s1 where "s1 = injectInput s x"
  define inj where "inj = injected_pushes E (couplings (graph s)) (external_input s @ [x])"
  have s1: "graph s1 = graph s" "external_input s1 = external_input s @ [x]"
    "trace s1 = trace s" "sched s1 = sched s" "tNext s1 = tNext s" "active s1 = active s"
    "heap s1 = heap s" "listeners s1 = listeners s"
    by (simp_all add: s1_def injectInput_def)
  from fin have "finite (mealy_receivers E (couplings (graph s1)))"
    by (simp add: s1)
  then obtain r where res: "computeNextOutput E s1 = Some r"
    using computeNextOutput_returns by blast
  define P where "P sp \<longleftrightarrow>
      couplings (graph (fst sp)) = couplings (graph s)
      \<and> (\<exists>ev. trace (fst sp) = trace s @ inj @ ev
            \<and> (\<forall>c. inputs (heap (fst sp) c)
                    = inputs (heap (undo_prior s1) c) @ inputs_pushed c (inj @ ev)))"
    for sp :: "('s, 'v, 't, 'g, 'q) Simulator \<times> nat list"
  have inv1: "routing_invariant E (couplings (graph s)) P"
    unfolding routing_invariant_def P_def by auto
  have inv2: "mealy_routing_invariant E (couplings (graph s)) P"
    unfolding mealy_routing_invariant_def P_def by auto
  let ?sp1 = "route_external E (external_input s1) (undo_prior s1, [])"
  have start: "P ((fst ?sp1)\<lparr>external_input := []\<rparr>, snd ?sp1)"
    using route_external_result [of E s1] by (simp add: P_def s1 inj_def)
  have "\<exists>pa'. P (left_by r, pa')"
    by (rule outputs_after_injection_rule [OF res inv1 inv2 start])
      (auto simp: P_def call_mealy_output_trace)
  then obtain ev where ev: "trace (left_by r) = trace s @ inj @ ev"
    "\<forall>c. inputs (heap (left_by r) c)
            = (if c \<in> set (active s) then [] else inputs (heap s c)) @ inputs_pushed c (inj @ ev)"
    by (auto simp: P_def s1)
  have frame: "same_frame s (left_by r)"
    using computeNextOutput_frame(1) [OF res] by (simp add: same_frame_def s1)
  have empty: "external_input (left_by r) = []"
    by (rule computeNextOutput_frame(2) [OF res])
  then have u: "(undo_prior (left_by r))\<lparr>external_input := []\<rparr> = undo_prior (left_by r)"
    by simp
  from empty frame have second: "moore_outputs E (left_by r)
      = (if minPriority E (sched s) = tNext s
         then imminent_outputs E (visitImminent E (sched s)) (undo_prior (left_by r), [])
         else (undo_prior (left_by r), []))"
    by (simp add: moore_outputs_cases Let_def same_frame_def u)
  from res empty frame ev second
  have "\<exists>r ev. computeNextOutput E s1 = Some r
          \<and> external_input (left_by r) = []
          \<and> same_frame s (left_by r)
          \<and> trace (left_by r) = trace s @ inj @ ev
          \<and> (\<forall>c. inputs (heap (left_by r) c)
                  = (if c \<in> set (active s) then [] else inputs (heap s c))
                    @ inputs_pushed c (inj @ ev))
          \<and> moore_outputs E (left_by r)
              = (if minPriority E (sched s) = tNext s
                 then imminent_outputs E (visitImminent E (sched s)) (undo_prior (left_by r), [])
                 else (undo_prior (left_by r), []))"
    by blast
  then show ?thesis
    unfolding s1_def inj_def by (simp add: injectInput_def)
qed

lemma inject_run:
  "\<exists>s'. computeNextOutput sys (injectInput sim_inject \<lparr>pv_pin = 7, pv_value = 9\<rparr>) = Some (Inr s')
     \<and> trace s' = [Push_input 5 \<lparr>pv_pin = 51, pv_value = 9\<rparr>,
                   Call_output_func 1, Notify_outputEvent 0 1 \<lparr>pv_pin = 10, pv_value = 1\<rparr> 1,
                   Call_output_func 2, Notify_outputEvent 0 2 \<lparr>pv_pin = 20, pv_value = 1\<rparr> 1,
                   Call_confluent_output_func 5 [\<lparr>pv_pin = 51, pv_value = 9\<rparr>],
                   Notify_outputEvent 0 5 \<lparr>pv_pin = 50, pv_value = 1\<rparr> 1,
                   Push_input 2 \<lparr>pv_pin = 21, pv_value = 1\<rparr>]
     \<and> external_input s' = []
     \<and> inputs (heap s' 5) = [\<lparr>pv_pin = 51, pv_value = 9\<rparr>]
     \<and> inputs (heap s' 2) = [\<lparr>pv_pin = 21, pv_value = 1\<rparr>]"
  apply (simp add: computeNextOutput_def moore_outputs_def injectInput_def
      sim_inject_def graph_inject_def sys_fields edges_route_def list_minPriority_def
      list_visitImminent_def undo_prior_def push_input_def call_output_func_def
      notify_output_def fresh_def Let_def)
  apply (subst mealy_outputs.simps)
  apply (simp add: mealy_output_def call_mealy_output_def call_external_output_func_def
      call_output_func_def call_confluent_output_func_def notify_output_def push_input_def
      sys_fields edges_route_def Let_def)
  apply (subst mealy_outputs.simps)
  apply simp
  done

theorem injected_input_consumed_witness:
  "finite (mealy_receivers sys (couplings (graph sim_inject)))
   \<and> (\<exists>r ev. computeNextOutput sys (injectInput sim_inject \<lparr>pv_pin = 7, pv_value = 9\<rparr>) = Some r
          \<and> external_input (left_by r) = []
          \<and> trace (left_by r) = Push_input 5 \<lparr>pv_pin = 51, pv_value = 9\<rparr> # ev
          \<and> inputs (heap (left_by r) 5) = \<lparr>pv_pin = 51, pv_value = 9\<rparr> # inputs_pushed 5 ev)
   \<and> (\<exists>s'. computeNextOutput sys (injectInput sim_inject \<lparr>pv_pin = 7, pv_value = 9\<rparr>)
              = Some (Inr s')
          \<and> trace s' = [Push_input 5 \<lparr>pv_pin = 51, pv_value = 9\<rparr>,
                        Call_output_func 1, Notify_outputEvent 0 1 \<lparr>pv_pin = 10, pv_value = 1\<rparr> 1,
                        Call_output_func 2, Notify_outputEvent 0 2 \<lparr>pv_pin = 20, pv_value = 1\<rparr> 1,
                        Call_confluent_output_func 5 [\<lparr>pv_pin = 51, pv_value = 9\<rparr>],
                        Notify_outputEvent 0 5 \<lparr>pv_pin = 50, pv_value = 1\<rparr> 1,
                        Push_input 2 \<lparr>pv_pin = 21, pv_value = 1\<rparr>]
          \<and> external_input s' = []
          \<and> inputs (heap s' 5) = [\<lparr>pv_pin = 51, pv_value = 9\<rparr>]
          \<and> inputs (heap s' 2) = [\<lparr>pv_pin = 21, pv_value = 1\<rparr>])"
proof -
  let ?x = "\<lparr>pv_pin = 7, pv_value = 9\<rparr> :: nat PinValue"
  have b: "finite (mealy_receivers sys (couplings (graph sim_inject)))"
    by (rule sys_mealy_receivers)
  have inj: "injected_pushes sys (couplings (graph sim_inject)) (external_input sim_inject @ [?x])
      = [Push_input 5 \<lparr>pv_pin = 51, pv_value = 9\<rparr>]"
    by (simp add: injected_pushes_def sim_inject_def graph_inject_def sys_fields edges_route_def)
  have s: "trace sim_inject = []" "active sim_inject = []" "inputs (heap sim_inject 5) = []"
    by (simp_all add: sim_inject_def fresh_def)
  from injected_input_consumed [OF b, of ?x]
  obtain r ev where r: "computeNextOutput sys (injectInput sim_inject ?x) = Some r"
    "external_input (left_by r) = []"
    "trace (left_by r) = trace sim_inject
       @ injected_pushes sys (couplings (graph sim_inject)) (external_input sim_inject @ [?x]) @ ev"
    "\<forall>c. inputs (heap (left_by r) c)
       = (if c \<in> set (active sim_inject) then [] else inputs (heap sim_inject c))
         @ inputs_pushed c (injected_pushes sys (couplings (graph sim_inject))
                              (external_input sim_inject @ [?x]) @ ev)"
    by blast
  from r(3) have t: "trace (left_by r) = Push_input 5 \<lparr>pv_pin = 51, pv_value = 9\<rparr> # ev"
    by (simp add: inj s)
  from r(4) have "inputs (heap (left_by r) 5) = \<lparr>pv_pin = 51, pv_value = 9\<rparr> # inputs_pushed 5 ev"
    by (simp add: inj s)
  with r(1,2) t
  have c: "\<exists>r ev. computeNextOutput sys (injectInput sim_inject ?x) = Some r
      \<and> external_input (left_by r) = []
      \<and> trace (left_by r) = Push_input 5 \<lparr>pv_pin = 51, pv_value = 9\<rparr> # ev
      \<and> inputs (heap (left_by r) 5) = \<lparr>pv_pin = 51, pv_value = 9\<rparr> # inputs_pushed 5 ev"
    by blast
  from b c inject_run show ?thesis by blast
qed

subsection \<open>Moore outputs before Mealy outputs\<close>

lemma no_input_after_output_append:
  "no_input_after_output E (xs @ ys) \<longleftrightarrow>
     no_input_after_output E xs \<and> no_input_after_output E ys
     \<and> (\<forall>e\<in>set xs. \<forall>m. output_call_of e = Some m \<longrightarrow> isMealyAtomic E m \<longrightarrow>
            Some m \<notin> input_receiver ` set ys)"
  by (induction xs) (auto split: option.splits)

lemma no_input_after_output_moore:
  assumes "\<forall>e\<in>set evs. \<forall>m. output_call_of e = Some m \<longrightarrow> \<not> isMealyAtomic E m"
  shows "no_input_after_output E evs"
  using assms by (induction evs) (auto split: option.splits)

lemma no_input_after_output_notify [simp]:
  "no_input_after_output E (map (\<lambda>listener. Notify_outputEvent listener m y t) ls)"
  by (induction ls) simp_all

lemma input_receiver_notify [simp]:
  "input_receiver ` set (map (\<lambda>listener. Notify_outputEvent listener m y t) ls) \<subseteq> {None}"
  by (induction ls) simp_all

lemma route_outputs_pushes:
  "\<exists>ev. trace (fst (route_outputs E m ys (s, pa))) = trace s @ ev
     \<and> (\<forall>y\<in>set ys. \<forall>(p, c)\<in>set (route E (couplings (graph s)) (pv_pin y)).
           Push_input c \<lparr>pv_pin = p, pv_value = pv_value y\<rparr> \<in> set ev)"
proof (induction ys arbitrary: s pa)
  case Nil
  show ?case by simp
next
  case (Cons y ys)
  let ?cs = "route E (couplings (graph s)) (pv_pin y)"
  let ?d = "deliver E (pv_value y) ?cs (notify_output m y s, pa)"
  from Cons.IH [of "fst ?d" "snd ?d"] obtain ev where
    ev: "trace (fst (route_outputs E m ys ?d)) = trace (fst ?d) @ ev"
      "\<forall>y\<in>set ys. \<forall>(p, c)\<in>set (route E (couplings (graph s)) (pv_pin y)).
           Push_input c \<lparr>pv_pin = p, pv_value = pv_value y\<rparr> \<in> set ev"
    by (auto simp: deliver_graph)
  let ?ev = "map (\<lambda>listener. Notify_outputEvent listener m y (tNext s)) (listeners s)
      @ map (\<lambda>(p, c). Push_input c \<lparr>pv_pin = p, pv_value = pv_value y\<rparr>) ?cs @ ev"
  have "trace (fst (route_outputs E m (y # ys) (s, pa))) = trace s @ ?ev"
    using ev(1) by (simp add: deliver_trace)
  moreover have "\<forall>y'\<in>set (y # ys). \<forall>(p, c)\<in>set (route E (couplings (graph s)) (pv_pin y')).
           Push_input c \<lparr>pv_pin = p, pv_value = pv_value y'\<rparr> \<in> set ?ev"
    using ev(2) by auto
  ultimately show ?case by blast
qed

lemma route_outputs_outputs:
  fixes E :: "('s, 'v, 't, 'g, 'q) Env" and s :: "('s, 'v, 't, 'g, 'q) Simulator"
  shows "graph (fst (route_outputs E m ys (s, pa))) = graph s
     \<and> (\<forall>m0. outputs (heap (fst (route_outputs E m ys (s, pa))) m0) = outputs (heap s m0))"
proof -
  define P where "P sp \<longleftrightarrow>
      graph (fst sp) = graph s \<and> (\<forall>m0. outputs (heap (fst sp) m0) = outputs (heap s m0))"
    for sp :: "('s, 'v, 't, 'g, 'q) Simulator \<times> nat list"
  have inv: "routing_invariant E (couplings (graph s)) P"
    unfolding routing_invariant_def P_def by auto
  have "P (route_outputs E m ys (s, pa))"
    by (rule route_outputs_rule [OF inv]) (simp add: P_def)
  then show ?thesis by (simp add: P_def)
qed

lemma imminent_outputs_other:
  fixes E :: "('s, 'v, 't, 'g, 'q) Env" and s :: "('s, 'v, 't, 'g, 'q) Simulator"
  assumes "m0 \<notin> set imm"
  shows "graph (fst (imminent_outputs E imm (s, pa))) = graph s
     \<and> outputs (heap (fst (imminent_outputs E imm (s, pa))) m0) = outputs (heap s m0)"
proof -
  define P where "P sp \<longleftrightarrow>
      graph (fst sp) = graph s \<and> outputs (heap (fst sp) m0) = outputs (heap s m0)"
    for sp :: "('s, 'v, 't, 'g, 'q) Simulator \<times> nat list"
  have inv: "routing_invariant E (couplings (graph s)) P"
    unfolding routing_invariant_def P_def by auto
  have "P (imminent_outputs E imm (s, pa))"
    by (rule imminent_outputs_rule [OF inv]) (use assms in \<open>auto simp: P_def\<close>)
  then show ?thesis by (simp add: P_def)
qed

lemma imminent_outputs_graph:
  fixes E :: "('s, 'v, 't, 'g, 'q) Env" and s :: "('s, 'v, 't, 'g, 'q) Simulator"
  shows "graph (fst (imminent_outputs E imm (s, pa))) = graph s"
proof -
  define P where "P sp \<longleftrightarrow> graph (fst sp) = graph s"
    for sp :: "('s, 'v, 't, 'g, 'q) Simulator \<times> nat list"
  have inv: "routing_invariant E (couplings (graph s)) P"
    unfolding routing_invariant_def P_def by auto
  have "P (imminent_outputs E imm (s, pa))"
    by (rule imminent_outputs_rule [OF inv]) (auto simp: P_def)
  then show ?thesis by (simp add: P_def)
qed

text \<open>The loop over the imminent models calls \<^verbatim>\<open>output_func\<close> of every Moore model among
  them and pushes every output that the model has when the loop ends to the receivers of
  its pin.\<close>

lemma imminent_outputs_covers:
  fixes E :: "('s, 'v, 't, 'g, 'q) Env" and s :: "('s, 'v, 't, 'g, 'q) Simulator"
  shows "\<exists>ev. trace (fst (imminent_outputs E imm (s, pa))) = trace s @ ev
     \<and> (\<forall>m\<in>set imm. \<not> isMealyAtomic E m \<longrightarrow>
           Call_output_func m \<in> set ev
           \<and> (\<forall>y\<in>set (outputs (heap (fst (imminent_outputs E imm (s, pa))) m)).
                \<forall>(p, c)\<in>set (route E (couplings (graph s)) (pv_pin y)).
                  Push_input c \<lparr>pv_pin = p, pv_value = pv_value y\<rparr> \<in> set ev))"
proof (induction imm arbitrary: s pa)
  case Nil
  show ?case by simp
next
  case (Cons model imm)
  show ?case
  proof (cases "isMealyAtomic E model")
    case True
    with Cons.IH [of s "set_insert model pa"] show ?thesis by auto
  next
    case False
    define s1 where "s1 = call_output_func E model (s\<lparr>active := set_insert model (active s)\<rparr>)"
    define sp2 where "sp2 = route_outputs E model (outputs (heap s1 model)) (s1, pa)"
    define fin where "fin = fst (imminent_outputs E imm (fst sp2, snd sp2))"
    have step: "imminent_outputs E (model # imm) (s, pa) = imminent_outputs E imm (fst sp2, snd sp2)"
      using False by (simp add: s1_def sp2_def Let_def)
    have g1: "graph s1 = graph s" and t1: "trace s1 = trace s @ [Call_output_func model]"
      by (simp_all add: s1_def)
    have g2: "graph (fst sp2) = graph s"
      and o2: "outputs (heap (fst sp2) model) = outputs (heap s1 model)"
      using route_outputs_outputs [of E model "outputs (heap s1 model)" s1 pa]
      by (simp_all add: sp2_def g1)
    from route_outputs_pushes [of E model "outputs (heap s1 model)" s1 pa]
    obtain evr where evr: "trace (fst sp2) = trace s1 @ evr"
      "\<forall>y\<in>set (outputs (heap s1 model)).
         \<forall>(p, c)\<in>set (route E (couplings (graph s)) (pv_pin y)).
           Push_input c \<lparr>pv_pin = p, pv_value = pv_value y\<rparr> \<in> set evr"
      by (auto simp: sp2_def g1)
    from Cons.IH [of "fst sp2" "snd sp2"]
    obtain ev where ev: "trace fin = trace (fst sp2) @ ev"
      "\<forall>m\<in>set imm. \<not> isMealyAtomic E m \<longrightarrow>
           Call_output_func m \<in> set ev
           \<and> (\<forall>y\<in>set (outputs (heap fin m)).
                \<forall>(p, c)\<in>set (route E (couplings (graph s)) (pv_pin y)).
                  Push_input c \<lparr>pv_pin = p, pv_value = pv_value y\<rparr> \<in> set ev)"
      by (auto simp: fin_def g2)
    let ?ev = "Call_output_func model # evr @ ev"
    have tr: "trace fin = trace s @ ?ev"
      by (simp add: ev(1) evr(1) t1)
    have cover: "Call_output_func m \<in> set ?ev
           \<and> (\<forall>y\<in>set (outputs (heap fin m)).
                \<forall>(p, c)\<in>set (route E (couplings (graph s)) (pv_pin y)).
                  Push_input c \<lparr>pv_pin = p, pv_value = pv_value y\<rparr> \<in> set ?ev)"
      if m: "m \<in> set (model # imm)" "\<not> isMealyAtomic E m" for m
    proof (cases "m \<in> set imm")
      case True
      with ev(2) m(2) show ?thesis by fastforce
    next
      case False
      with m(1) have eq: "m = model" by simp
      from False eq have "outputs (heap fin model) = outputs (heap (fst sp2) model)"
        using imminent_outputs_other [of model imm E "fst sp2" "snd sp2"] by (simp add: fin_def)
      with o2 have "outputs (heap fin model) = outputs (heap s1 model)" by simp
      with evr(2) eq show ?thesis by auto
    qed
    from tr cover show ?thesis
      unfolding step fin_def [symmetric] by blast
  qed
qed

lemma no_input_after_output_extend:
  assumes "no_input_after_output E (ev1 @ ev2)"
    and "\<forall>e\<in>set ev1. \<forall>m. output_call_of e = Some m \<longrightarrow> \<not> isMealyAtomic E m"
    and "\<forall>e\<in>set ev2. \<forall>m. output_call_of e = Some m \<longrightarrow> m \<in> A"
    and "no_input_after_output E evn"
    and "\<forall>m\<in>A. isMealyAtomic E m \<longrightarrow> Some m \<notin> input_receiver ` set evn"
  shows "no_input_after_output E (ev1 @ ev2 @ evn)"
proof -
  have "no_input_after_output E ((ev1 @ ev2) @ evn)"
    unfolding no_input_after_output_append [of E "ev1 @ ev2" evn] using assms by auto
  then show ?thesis by simp
qed

lemma mealy_call_event:
  fixes E :: "('s, 'v, 't::minus, 'g, 'q) Env"
  shows "\<exists>e. trace (call_mealy_output E m s) = trace s @ [e]
     \<and> output_call_of e = Some m \<and> input_receiver e = None"
  by (simp add: call_mealy_output_trace)

text \<open>
  Claim C7.  \<^verbatim>\<open>computeNextOutput\<close> returns, and the events it adds to the trace split in two:
  those before the loop over \<^verbatim>\<open>pending_active\<close>, among which every output function called
  is that of a Moore atomic, and those of the loop, among which every output function
  called is that of a Mealy atomic.  The first part holds the call of \<^verbatim>\<open>output_func\<close> of
  every imminent Moore atomic and the push of each of its outputs to every receiver of the
  pin of the output.  In the whole no input is pushed to a Mealy atomic after an output
  function of that atomic was called.
\<close>

theorem moore_outputs_before_mealy:
  fixes E :: "('s, 'v, 't::minus, 'g, 'q) Env"
  assumes fin: "finite (mealy_receivers E (couplings (graph s)))"
  shows
    "\<exists>r ev1 ev2. computeNextOutput E s = Some r
       \<and> trace (fst (moore_outputs E s)) = trace s @ ev1
       \<and> trace (left_by r) = trace s @ ev1 @ ev2
       \<and> (\<forall>e\<in>set ev1. \<forall>m. output_call_of e = Some m \<longrightarrow> \<not> isMealyAtomic E m)
       \<and> (\<forall>e\<in>set ev2. \<forall>m. output_call_of e = Some m \<longrightarrow> isMealyAtomic E m)
       \<and> (minPriority E (sched s) = tNext s \<longrightarrow>
            (\<forall>m\<in>set (visitImminent E (sched s)). \<not> isMealyAtomic E m \<longrightarrow>
               Call_output_func m \<in> set ev1
               \<and> (\<forall>y\<in>set (outputs (heap (left_by r) m)).
                    \<forall>(p, c)\<in>set (route E (couplings (graph s)) (pv_pin y)).
                      Push_input c \<lparr>pv_pin = p, pv_value = pv_value y\<rparr> \<in> set ev1)))
       \<and> no_input_after_output E (ev1 @ ev2)"
proof -
  define g where "g = couplings (graph s)"
  define s12 where "s12 = fst (moore_outputs E s)"
  from fin obtain r where res: "computeNextOutput E s = Some r"
    using computeNextOutput_returns by blast
  \<comment> \<open>before the loop over the pending models\<close>
  define P1 where "P1 sp \<longleftrightarrow>
      couplings (graph (fst sp)) = g
      \<and> (\<exists>ev. trace (fst sp) = trace s @ ev
            \<and> (\<forall>e\<in>set ev. \<forall>m. output_call_of e = Some m \<longrightarrow> \<not> isMealyAtomic E m))"
    for sp :: "('s, 'v, 't, 'g, 'q) Simulator \<times> nat list"
  have inv1: "routing_invariant E g P1"
    unfolding routing_invariant_def P1_def by auto
  have "P1 (moore_outputs E s)"
    by (rule moore_outputs_rule [OF inv1]) (auto simp: P1_def g_def)
  then obtain ev1 where ev1: "trace s12 = trace s @ ev1"
    and calls1: "\<forall>e\<in>set ev1. \<forall>m. output_call_of e = Some m \<longrightarrow> \<not> isMealyAtomic E m"
    by (auto simp: P1_def s12_def)
  have g12: "couplings (graph s12) = g"
    and pend: "\<forall>m\<in>set (snd (moore_outputs E s)). isMealyAtomic E m"
    using moore_outputs_pending [of E s] by (simp_all add: s12_def g_def)
  \<comment> \<open>the imminent Moore models\<close>
  have cover: "Call_output_func m \<in> set ev1
      \<and> (\<forall>y\<in>set (outputs (heap s12 m)). \<forall>(p, c)\<in>set (route E g (pv_pin y)).
            Push_input c \<lparr>pv_pin = p, pv_value = pv_value y\<rparr> \<in> set ev1)"
    if imm: "minPriority E (sched s) = tNext s" "m \<in> set (visitImminent E (sched s))"
      "\<not> isMealyAtomic E m" for m
  proof -
    let ?sp1 = "route_external E (external_input s) (undo_prior s, [])"
    let ?s2 = "(fst ?sp1)\<lparr>external_input := []\<rparr>"
    have mo: "moore_outputs E s = imminent_outputs E (visitImminent E (sched s)) (?s2, snd ?sp1)"
      using imm(1) by (simp add: moore_outputs_cases Let_def)
    have g2: "couplings (graph ?s2) = g"
      and t2: "trace ?s2 = trace s @ injected_pushes E (couplings (graph s)) (external_input s)"
      using route_external_result(1,2) [of E s] by (simp_all add: g_def)
    from imminent_outputs_covers [of E "visitImminent E (sched s)" ?s2 "snd ?sp1"] imm(2,3)
    obtain ev where ev: "trace s12 = trace ?s2 @ ev"
      and c: "Call_output_func m \<in> set ev
          \<and> (\<forall>y\<in>set (outputs (heap s12 m)). \<forall>(p, c)\<in>set (route E g (pv_pin y)).
                Push_input c \<lparr>pv_pin = p, pv_value = pv_value y\<rparr> \<in> set ev)"
      unfolding mo [symmetric] s12_def [symmetric] g2 by blast
    from ev ev1 have "ev1 = injected_pushes E (couplings (graph s)) (external_input s) @ ev"
      by (simp add: t2)
    with c show ?thesis by auto
  qed
  \<comment> \<open>the loop over the pending models\<close>
  define P2 where "P2 sp \<longleftrightarrow>
      couplings (graph (fst sp)) = g
      \<and> (\<forall>m\<in>set (snd sp). isMealyAtomic E m)
      \<and> (\<forall>m. \<not> isMealyAtomic E m \<longrightarrow> outputs (heap (fst sp) m) = outputs (heap s12 m))
      \<and> (\<exists>ev2. trace (fst sp) = trace s @ ev1 @ ev2
            \<and> (\<forall>e\<in>set ev2. \<forall>m. output_call_of e = Some m \<longrightarrow>
                  isMealyAtomic E m \<and> m \<in> set (active (fst sp)))
            \<and> no_input_after_output E (ev1 @ ev2))"
    for sp :: "('s, 'v, 't, 'g, 'q) Simulator \<times> nat list"
  have P2I: "P2 (s', pa)"
    if "couplings (graph s') = g" and "\<forall>m\<in>set pa. isMealyAtomic E m"
      and "\<forall>m. \<not> isMealyAtomic E m \<longrightarrow> outputs (heap s' m) = outputs (heap s12 m)"
      and "trace s' = trace s @ ev1 @ ev2"
      and "\<forall>e\<in>set ev2. \<forall>m. output_call_of e = Some m \<longrightarrow> isMealyAtomic E m \<and> m \<in> set (active s')"
      and "no_input_after_output E (ev1 @ ev2)"
    for s' pa ev2
    unfolding P2_def using that by auto
  have ext: "no_input_after_output E (ev1 @ ev2 @ evn)"
    if "no_input_after_output E (ev1 @ ev2)"
      and "\<forall>e\<in>set ev2. \<forall>m. output_call_of e = Some m \<longrightarrow> isMealyAtomic E m \<and> m \<in> A"
      and "no_input_after_output E evn"
      and "\<forall>m\<in>A. isMealyAtomic E m \<longrightarrow> Some m \<notin> input_receiver ` set evn"
    for ev2 evn A
    by (rule no_input_after_output_extend [OF that(1) calls1 _ that(3,4)]) (use that(2) in blast)
  have inv2: "mealy_routing_invariant E g P2"
    unfolding mealy_routing_invariant_def
  proof (intro conjI allI impI)
    fix s' :: "('s, 'v, 't, 'g, 'q) Simulator" and pa :: "nat list"
    assume "P2 (s', pa)"
    then show "couplings (graph s') = g" by (simp add: P2_def)
  next
    fix s' :: "('s, 'v, 't, 'g, 'q) Simulator" and pa :: "nat list" and m :: nat
      and y :: "'v PinValue"
    assume p: "P2 (s', pa)"
    then obtain ev2 where ev2: "trace s' = trace s @ ev1 @ ev2"
      "\<forall>e\<in>set ev2. \<forall>m. output_call_of e = Some m \<longrightarrow> isMealyAtomic E m \<and> m \<in> set (active s')"
      "no_input_after_output E (ev1 @ ev2)"
      by (auto simp: P2_def)
    let ?n = "map (\<lambda>listener. Notify_outputEvent listener m y (tNext s')) (listeners s')"
    have "no_input_after_output E (ev1 @ ev2 @ ?n)"
      by (rule ext [OF ev2(3) ev2(2)]) (use input_receiver_notify [of m y "tNext s'" "listeners s'"] in auto)
    moreover have "\<forall>e\<in>set (ev2 @ ?n). \<forall>m. output_call_of e = Some m \<longrightarrow>
        isMealyAtomic E m \<and> m \<in> set (active (notify_output m y s'))"
      using ev2(2) by auto
    ultimately show "P2 (notify_output m y s', pa)"
      using p ev2(1) by (intro P2I [where ?ev2.0 = "ev2 @ ?n"]) (simp_all add: P2_def)
  next
    fix s' :: "('s, 'v, 't, 'g, 'q) Simulator" and pa :: "nat list" and q p c :: nat
      and v :: 'v
    assume p2: "P2 (s', pa)" and c: "isMealyAtomic E c" "c \<notin> set (active s')"
    then obtain ev2 where ev2: "trace s' = trace s @ ev1 @ ev2"
      "\<forall>e\<in>set ev2. \<forall>m. output_call_of e = Some m \<longrightarrow> isMealyAtomic E m \<and> m \<in> set (active s')"
      "no_input_after_output E (ev1 @ ev2)"
      by (auto simp: P2_def)
    let ?x = "\<lparr>pv_pin = p, pv_value = v\<rparr>"
    have "no_input_after_output E (ev1 @ ev2 @ [Push_input c ?x])"
      by (rule ext [OF ev2(3) ev2(2)]) (use c in auto)
    moreover have "\<forall>e\<in>set (ev2 @ [Push_input c ?x]). \<forall>m. output_call_of e = Some m \<longrightarrow>
        isMealyAtomic E m \<and> m \<in> set (active (push_input c ?x s'))"
      using ev2(2) by auto
    ultimately show "P2 (push_input c ?x s', set_insert c pa)"
      using p2 ev2(1) c by (intro P2I [where ?ev2.0 = "ev2 @ [Push_input c ?x]"]) (simp_all add: P2_def)
  next
    fix s' :: "('s, 'v, 't, 'g, 'q) Simulator" and pa :: "nat list" and q p c :: nat
      and v :: 'v
    assume p2: "P2 (s', pa)" and c: "\<not> isMealyAtomic E c"
    then obtain ev2 where ev2: "trace s' = trace s @ ev1 @ ev2"
      "\<forall>e\<in>set ev2. \<forall>m. output_call_of e = Some m \<longrightarrow> isMealyAtomic E m \<and> m \<in> set (active s')"
      "no_input_after_output E (ev1 @ ev2)"
      by (auto simp: P2_def)
    let ?x = "\<lparr>pv_pin = p, pv_value = v\<rparr>"
    let ?s = "s'\<lparr>active := set_insert c (active s')\<rparr>"
    have "no_input_after_output E (ev1 @ ev2 @ [Push_input c ?x])"
      by (rule ext [OF ev2(3) ev2(2)]) (use c in auto)
    moreover have "\<forall>e\<in>set (ev2 @ [Push_input c ?x]). \<forall>m. output_call_of e = Some m \<longrightarrow>
        isMealyAtomic E m \<and> m \<in> set (active (push_input c ?x ?s))"
      using ev2(2) by auto
    ultimately show "P2 (push_input c ?x ?s, pa)"
      using p2 ev2(1) by (intro P2I [where ?ev2.0 = "ev2 @ [Push_input c ?x]"]) (simp_all add: P2_def)
  qed
  have start: "P2 (moore_outputs E s)"
    unfolding P2_def using g12 pend ev1 no_input_after_output_moore [OF calls1]
    by (simp add: s12_def)
  have call: "P2 (call_mealy_output E (hd pa) (s'\<lparr>active := set_insert (hd pa) (active s')\<rparr>),
                   removeAll (hd pa) pa)"
    if p2: "P2 (s', pa)" and ne: "pa \<noteq> []" for s' pa
  proof -
    from p2 ne have hd: "isMealyAtomic E (hd pa)"
      by (auto simp: P2_def)
    from p2 obtain ev2 where ev2: "trace s' = trace s @ ev1 @ ev2"
      "\<forall>e\<in>set ev2. \<forall>m. output_call_of e = Some m \<longrightarrow> isMealyAtomic E m \<and> m \<in> set (active s')"
      "no_input_after_output E (ev1 @ ev2)"
      by (auto simp: P2_def)
    let ?s = "s'\<lparr>active := set_insert (hd pa) (active s')\<rparr>"
    from mealy_call_event [of E "hd pa" ?s] obtain e where
      e: "trace (call_mealy_output E (hd pa) ?s) = trace ?s @ [e]"
        "output_call_of e = Some (hd pa)" "input_receiver e = None"
      by blast
    have "no_input_after_output E (ev1 @ ev2 @ [e])"
      by (rule ext [OF ev2(3) ev2(2)]) (use e in simp_all)
    moreover have "\<forall>e'\<in>set (ev2 @ [e]). \<forall>m. output_call_of e' = Some m \<longrightarrow>
        isMealyAtomic E m \<and> m \<in> set (active (call_mealy_output E (hd pa) ?s))"
      using ev2(2) e(2) hd by auto
    moreover have "\<forall>m. \<not> isMealyAtomic E m \<longrightarrow>
        outputs (heap (call_mealy_output E (hd pa) ?s) m) = outputs (heap s12 m)"
    proof (intro allI impI)
      fix m
      assume m: "\<not> isMealyAtomic E m"
      with hd have "m \<noteq> hd pa" by auto
      then have "outputs (heap (call_mealy_output E (hd pa) ?s) m) = outputs (heap s' m)"
        by simp
      with p2 m show "outputs (heap (call_mealy_output E (hd pa) ?s) m) = outputs (heap s12 m)"
        by (simp add: P2_def)
    qed
    ultimately show ?thesis
      using p2 ev2(1) e(1) by (intro P2I [where ?ev2.0 = "ev2 @ [e]"]) (simp_all add: P2_def)
  qed
  from res have "mealy_outputs E (moore_outputs E s) = Some r"
    by (simp add: computeNextOutput_def)
  from mealy_outputs_rule [OF this inv2 start call] obtain pa' where "P2 (left_by r, pa')"
    by blast
  then obtain ev2 where ev2: "trace (left_by r) = trace s @ ev1 @ ev2"
    and calls2: "\<forall>e\<in>set ev2. \<forall>m. output_call_of e = Some m \<longrightarrow> isMealyAtomic E m"
    and niao: "no_input_after_output E (ev1 @ ev2)"
    and outs: "\<forall>m. \<not> isMealyAtomic E m \<longrightarrow> outputs (heap (left_by r) m) = outputs (heap s12 m)"
    by (auto simp: P2_def)
  have "minPriority E (sched s) = tNext s \<longrightarrow>
            (\<forall>m\<in>set (visitImminent E (sched s)). \<not> isMealyAtomic E m \<longrightarrow>
               Call_output_func m \<in> set ev1
               \<and> (\<forall>y\<in>set (outputs (heap (left_by r) m)).
                    \<forall>(p, c)\<in>set (route E (couplings (graph s)) (pv_pin y)).
                      Push_input c \<lparr>pv_pin = p, pv_value = pv_value y\<rparr> \<in> set ev1))"
    using cover outs unfolding g_def by simp
  with res ev1 ev2 calls1 calls2 niao show ?thesis
    unfolding s12_def by blast
qed

lemma chain_run:
  "\<exists>s'. computeNextOutput sys sim_chain = Some (Inr s')
     \<and> trace s' = [Call_output_func 1, Notify_outputEvent 0 1 \<lparr>pv_pin = 10, pv_value = 1\<rparr> 1,
                   Push_input 5 \<lparr>pv_pin = 51, pv_value = 1\<rparr>,
                   Call_output_func 2, Notify_outputEvent 0 2 \<lparr>pv_pin = 20, pv_value = 1\<rparr> 1,
                   Call_confluent_output_func 5 [\<lparr>pv_pin = 51, pv_value = 1\<rparr>],
                   Notify_outputEvent 0 5 \<lparr>pv_pin = 50, pv_value = 1\<rparr> 1,
                   Push_input 2 \<lparr>pv_pin = 21, pv_value = 1\<rparr>]"
  apply (simp add: computeNextOutput_def moore_outputs_def
      sim_chain_def graph_chain_def sys_fields edges_route_def list_minPriority_def
      list_visitImminent_def undo_prior_def push_input_def call_output_func_def
      notify_output_def fresh_def Let_def)
  apply (subst mealy_outputs.simps)
  apply (simp add: mealy_output_def call_mealy_output_def call_external_output_func_def
      call_output_func_def call_confluent_output_func_def notify_output_def push_input_def
      sys_fields edges_route_def Let_def)
  apply (subst mealy_outputs.simps)
  apply simp
  done

theorem moore_outputs_before_mealy_witness:
  "finite (mealy_receivers sys (couplings (graph sim_chain)))
   \<and> (\<exists>r ev1 ev2. computeNextOutput sys sim_chain = Some r
          \<and> trace (left_by r) = ev1 @ ev2
          \<and> Call_output_func 1 \<in> set ev1 \<and> Call_output_func 2 \<in> set ev1
          \<and> Call_output_func 5 \<notin> set ev1
          \<and> no_input_after_output sys (ev1 @ ev2))
   \<and> (\<exists>s'. computeNextOutput sys sim_chain = Some (Inr s')
          \<and> trace s' = [Call_output_func 1, Notify_outputEvent 0 1 \<lparr>pv_pin = 10, pv_value = 1\<rparr> 1,
                        Push_input 5 \<lparr>pv_pin = 51, pv_value = 1\<rparr>,
                        Call_output_func 2, Notify_outputEvent 0 2 \<lparr>pv_pin = 20, pv_value = 1\<rparr> 1,
                        Call_confluent_output_func 5 [\<lparr>pv_pin = 51, pv_value = 1\<rparr>],
                        Notify_outputEvent 0 5 \<lparr>pv_pin = 50, pv_value = 1\<rparr> 1,
                        Push_input 2 \<lparr>pv_pin = 21, pv_value = 1\<rparr>])"
proof -
  have b: "finite (mealy_receivers sys (couplings (graph sim_chain)))"
    by (rule sys_mealy_receivers)
  have imm: "minPriority sys (sched sim_chain) = tNext sim_chain"
    "visitImminent sys (sched sim_chain) = [1, 2, 5]"
    by (simp_all add: sim_chain_def sys_fields list_minPriority_def list_visitImminent_def)
  have t: "trace sim_chain = []"
    by (simp add: sim_chain_def)
  from moore_outputs_before_mealy [OF b]
  obtain r ev1 ev2 where r: "computeNextOutput sys sim_chain = Some r"
    "trace (left_by r) = trace sim_chain @ ev1 @ ev2"
    "\<forall>e\<in>set ev1. \<forall>m. output_call_of e = Some m \<longrightarrow> \<not> isMealyAtomic sys m"
    "minPriority sys (sched sim_chain) = tNext sim_chain \<longrightarrow>
       (\<forall>m\<in>set (visitImminent sys (sched sim_chain)). \<not> isMealyAtomic sys m \<longrightarrow>
          Call_output_func m \<in> set ev1
          \<and> (\<forall>y\<in>set (outputs (heap (left_by r) m)).
               \<forall>(p, c)\<in>set (route sys (couplings (graph sim_chain)) (pv_pin y)).
                 Push_input c \<lparr>pv_pin = p, pv_value = pv_value y\<rparr> \<in> set ev1))"
    "no_input_after_output sys (ev1 @ ev2)"
    by blast
  from r(4) have "\<forall>m\<in>set [1, 2, 5]. \<not> isMealyAtomic sys m \<longrightarrow> Call_output_func m \<in> set ev1"
    unfolding imm by simp
  then have "Call_output_func 1 \<in> set ev1" "Call_output_func 2 \<in> set ev1"
    by (simp_all add: sys_fields(2))
  moreover from r(3) have "Call_output_func 5 \<notin> set ev1"
    by (auto simp: sys_fields)
  ultimately have "\<exists>r ev1 ev2. computeNextOutput sys sim_chain = Some r
          \<and> trace (left_by r) = ev1 @ ev2
          \<and> Call_output_func 1 \<in> set ev1 \<and> Call_output_func 2 \<in> set ev1
          \<and> Call_output_func 5 \<notin> set ev1
          \<and> no_input_after_output sys (ev1 @ ev2)"
    using r(1,2,5) unfolding t by auto
  with b chain_run show ?thesis by blast
qed

subsection \<open>Feedback between Mealy models\<close>

lemma deliver_mealy_feedback:
  assumes "(p, c) \<in> set cs" and "isMealyAtomic E c" and "c \<in> set (active s)"
  shows "\<exists>s'. deliver_mealy E model v cs (s, pa)
           = Inl (Exception ''Feedback loop of Mealy models is illegal'' model, s')"
  using assms
proof (induction cs arbitrary: s pa)
  case Nil
  then show ?case by simp
next
  case (Cons pc cs)
  obtain p0 c0 where pc: "pc = (p0, c0)" by (cases pc)
  show ?case
  proof (cases "isMealyAtomic E c0")
    case True
    show ?thesis
    proof (cases "c0 \<in> set (active s)")
      case True
      with \<open>isMealyAtomic E c0\<close> show ?thesis by (simp add: pc)
    next
      case False
      with Cons.prems pc have "(p, c) \<in> set cs" by auto
      from Cons.IH [OF this Cons.prems(2), of "push_input c0 \<lparr>pv_pin = p0, pv_value = v\<rparr> s"
          "set_insert c0 pa"] Cons.prems(3) True False
      show ?thesis by (simp add: pc)
    qed
  next
    case False
    with Cons.prems pc have "(p, c) \<in> set cs" by auto
    from Cons.IH [OF this Cons.prems(2),
        of "push_input c0 \<lparr>pv_pin = p0, pv_value = v\<rparr> (s\<lparr>active := set_insert c0 (active s)\<rparr>)" pa]
      Cons.prems(3) False
    show ?thesis by (simp add: pc)
  qed
qed

lemma route_outputs_mealy_feedback:
  fixes E :: "('s, 'v, 't, 'g, 'q) Env" and s :: "('s, 'v, 't, 'g, 'q) Simulator"
  assumes "y \<in> set ys" and "(p, c) \<in> set (route E (couplings (graph s)) (pv_pin y))"
    and "isMealyAtomic E c" and "c \<in> set (active s)"
  shows "\<exists>s'. route_outputs_mealy E model ys (s, pa)
           = Inl (Exception ''Feedback loop of Mealy models is illegal'' model, s')"
  using assms
proof (induction ys arbitrary: s pa)
  case Nil
  then show ?case by simp
next
  case (Cons y0 ys)
  define g where "g = couplings (graph s)"
  define P where "P sp \<longleftrightarrow> couplings (graph (fst sp)) = g \<and> c \<in> set (active (fst sp))"
    for sp :: "('s, 'v, 't, 'g, 'q) Simulator \<times> nat list"
  have inv: "mealy_routing_invariant E g P"
    unfolding mealy_routing_invariant_def P_def by auto
  let ?d = "deliver_mealy E model (pv_value y0) (route E g (pv_pin y0)) (notify_output model y0 s, pa)"
  have start: "P (notify_output model y0 s, pa)"
    using Cons.prems by (simp add: P_def g_def)
  have rule: "case ?d of Inr sp \<Rightarrow> P sp
      | Inl (e, s') \<Rightarrow> e = Exception ''Feedback loop of Mealy models is illegal'' model
                        \<and> (\<exists>pa'. P (s', pa'))"
    by (rule deliver_mealy_rule [OF inv start subset_refl])
  show ?case
  proof (cases ?d)
    case (Inl es)
    with rule show ?thesis
      by (cases es) (simp add: g_def)
  next
    case (Inr sp1)
    have "y \<noteq> y0"
    proof
      assume "y = y0"
      with Cons.prems have "(p, c) \<in> set (route E g (pv_pin y0))" by (simp add: g_def)
      from deliver_mealy_feedback [OF this Cons.prems(3), of "notify_output model y0 s" model
          "pv_value y0" pa] Cons.prems(4) Inr
      show False by simp
    qed
    with Cons.prems have y: "y \<in> set ys" by simp
    from rule Inr have p1: "couplings (graph (fst sp1)) = g" "c \<in> set (active (fst sp1))"
      by (simp_all add: P_def)
    from Cons.prems(2) p1 have "(p, c) \<in> set (route E (couplings (graph (fst sp1))) (pv_pin y))"
      by (simp add: g_def)
    from Cons.IH [OF y this Cons.prems(3) p1(2), of "snd sp1"] Inr
    show ?thesis by (simp add: g_def)
  qed
qed

text \<open>A turn of the loop in which an output of the model is routed to a Mealy model that
  is active ends the call with the exception.\<close>

lemma mealy_outputs_feedback:
  fixes E :: "('s, 'v, 't::minus, 'g, 'q) Env" and s :: "('s, 'v, 't, 'g, 'q) Simulator"
  assumes "pa \<noteq> []"
    and "y \<in> set (outputs (heap (call_mealy_output E (hd pa)
                                   (s\<lparr>active := set_insert (hd pa) (active s)\<rparr>)) (hd pa)))"
    and "(p, c) \<in> set (route E (couplings (graph s)) (pv_pin y))"
    and "isMealyAtomic E c" and "c = hd pa \<or> c \<in> set (active s)"
  shows "\<exists>s'. mealy_outputs E (s, pa)
           = Some (Inl (Exception ''Feedback loop of Mealy models is illegal'' (hd pa), s'))"
proof -
  let ?s2 = "call_mealy_output E (hd pa) (s\<lparr>active := set_insert (hd pa) (active s)\<rparr>)"
  have "(p, c) \<in> set (route E (couplings (graph ?s2)) (pv_pin y))"
    using assms(3) by simp
  moreover have "c \<in> set (active ?s2)"
    using assms(5) by auto
  ultimately obtain s' where "route_outputs_mealy E (hd pa) (outputs (heap ?s2 (hd pa)))
      (?s2, removeAll (hd pa) pa)
      = Inl (Exception ''Feedback loop of Mealy models is illegal'' (hd pa), s')"
    using route_outputs_mealy_feedback [OF assms(2) _ assms(4)] by blast
  then have "mealy_output E (s, pa)
      = Inl (Exception ''Feedback loop of Mealy models is illegal'' (hd pa), s')"
    by (simp add: mealy_output_def Let_def)
  with assms(1) show ?thesis
    by (subst mealy_outputs.simps) simp
qed

lemma call_mealy_output_sends:
  fixes E :: "('s, 'v, 't::minus, 'g, 'q) Env"
  assumes "sends_to E g m x"
  shows "\<exists>y\<in>set (outputs (heap (call_mealy_output E m s) m)).
           x \<in> snd ` set (route E g (pv_pin y))"
  using assms
  by (simp add: sends_to_def call_mealy_output_def call_output_func_def
      call_confluent_output_func_def call_external_output_func_def)

lemma imminent_outputs_all_mealy:
  assumes "\<forall>m\<in>set imm. isMealyAtomic E m"
  shows "fst (imminent_outputs E imm (s, pa)) = s
     \<and> set (snd (imminent_outputs E imm (s, pa))) = set pa \<union> set imm"
  using assms by (induction imm arbitrary: pa) auto

lemma sorted_set_insert: "sorted xs \<Longrightarrow> sorted (set_insert x xs)"
  by (induction xs) auto

lemma sorted_removeAll: "sorted xs \<Longrightarrow> sorted (removeAll x (xs :: nat list))"
  by (induction xs) auto

lemma hd_sorted_le: "sorted xs \<Longrightarrow> x \<in> set xs \<Longrightarrow> hd xs \<le> (x :: nat)"
  by (cases xs) auto

text \<open>
  Two Mealy models of which both are pending, or one is active and the other pending, and
  each of which emits to the other when its output is computed: the loop over
  \<^verbatim>\<open>pending_active\<close> ends with the exception.  The loop takes the least pending model, so
  only models up to the larger of the two have their turn before both have had theirs.
\<close>

lemma mealy_outputs_throws:
  fixes E :: "('s, 'v, 't::minus, 'g, 'q) Env"
    and sp :: "('s, 'v, 't, 'g, 'q) Simulator \<times> nat list"
  assumes mealy: "isMealyAtomic E a" "isMealyAtomic E b" and ne: "a \<noteq> b"
    and g: "couplings (graph (fst sp)) = g"
    and srt: "sorted (snd sp)"
    and pa: "\<forall>m\<in>set (snd sp). isMealyAtomic E m \<and> m \<notin> set (active (fst sp))"
    and st: "(a \<in> set (snd sp) \<and> b \<in> set (snd sp))
           \<or> (a \<in> set (active (fst sp)) \<and> b \<in> set (snd sp))
           \<or> (b \<in> set (active (fst sp)) \<and> a \<in> set (snd sp))"
    and emits: "\<forall>n sp'. loop_state E n sp = Some sp' \<longrightarrow> snd sp' \<noteq> [] \<longrightarrow>
        (hd (snd sp') = a \<longrightarrow>
           (\<exists>y\<in>set (outputs (heap (call_mealy_output E a
                                     ((fst sp')\<lparr>active := set_insert a (active (fst sp'))\<rparr>)) a)).
              b \<in> snd ` set (route E g (pv_pin y))))
        \<and> (hd (snd sp') = b \<longrightarrow>
           (\<exists>y\<in>set (outputs (heap (call_mealy_output E b
                                     ((fst sp')\<lparr>active := set_insert b (active (fst sp'))\<rparr>)) b)).
              a \<in> snd ` set (route E g (pv_pin y))))"
  shows "\<exists>m s'. mealy_outputs E sp
           = Some (Inl (Exception ''Feedback loop of Mealy models is illegal'' m, s'))"
  using g srt pa st emits
proof (induction "card ({..max a b} - set (active (fst sp)))" arbitrary: sp rule: less_induct)
  case less
  obtain s0 pa0 where sp: "sp = (s0, pa0)" by (cases sp)
  from less.prems(4) have nonempty: "pa0 \<noteq> []"
    by (auto simp: sp)
  define model where "model = hd pa0"
  from nonempty have model: "model \<in> set pa0"
    by (simp add: model_def)
  with less.prems(3) have notactive: "model \<notin> set (active s0)"
    by (simp add: sp)
  from less.prems(4) obtain x where "x \<in> set pa0" and "x = a \<or> x = b"
    by (auto simp: sp)
  with less.prems(2) have bound: "model \<le> max a b"
    using hd_sorted_le [of pa0 x] by (auto simp: sp model_def)
  from less.prems(5) [rule_format, of 0 sp] nonempty
  have out: "model = a \<longrightarrow>
        (\<exists>y\<in>set (outputs (heap (call_mealy_output E a
                                  (s0\<lparr>active := set_insert a (active s0)\<rparr>)) a)).
           b \<in> snd ` set (route E g (pv_pin y)))"
      "model = b \<longrightarrow>
        (\<exists>y\<in>set (outputs (heap (call_mealy_output E b
                                  (s0\<lparr>active := set_insert b (active s0)\<rparr>)) b)).
           a \<in> snd ` set (route E g (pv_pin y)))"
    by (simp_all add: sp model_def)
  have direct: "\<exists>m s'. mealy_outputs E (s0, pa0)
           = Some (Inl (Exception ''Feedback loop of Mealy models is illegal'' m, s'))"
    if x: "model = x" "isMealyAtomic E y" "y \<in> set (active s0)"
      and o: "\<exists>yv\<in>set (outputs (heap (call_mealy_output E x
                                  (s0\<lparr>active := set_insert x (active s0)\<rparr>)) x)).
           y \<in> snd ` set (route E g (pv_pin yv))"
    for x y
  proof -
    from o obtain yv p where yv: "yv \<in> set (outputs (heap (call_mealy_output E (hd pa0)
          (s0\<lparr>active := set_insert (hd pa0) (active s0)\<rparr>)) (hd pa0)))"
      and r: "(p, y) \<in> set (route E (couplings (graph s0)) (pv_pin yv))"
      using x(1) less.prems(1) by (auto simp: model_def sp)
    from x(3) have "y = hd pa0 \<or> y \<in> set (active s0)" by simp
    from mealy_outputs_feedback [OF nonempty yv r x(2) this] show ?thesis by blast
  qed
  consider (ab) "model = a" "b \<in> set (active s0)" | (ba) "model = b" "a \<in> set (active s0)"
    | (other) "\<not> (model = a \<and> b \<in> set (active s0))" "\<not> (model = b \<and> a \<in> set (active s0))"
    by blast
  then show ?case
  proof cases
    case ab
    with out(1) direct [of a b] mealy(2) show ?thesis by (simp add: sp)
  next
    case ba
    with out(2) direct [of b a] mealy(1) show ?thesis by (simp add: sp)
  next
    case other
    define s2 where
      "s2 = call_mealy_output E model (s0\<lparr>active := set_insert model (active s0)\<rparr>)"
    define P where "P sp' \<longleftrightarrow>
        couplings (graph (fst sp')) = g
        \<and> insert model (set (active s0)) \<subseteq> set (active (fst sp'))
        \<and> sorted (snd sp')
        \<and> (\<forall>m\<in>set (snd sp'). isMealyAtomic E m \<and> m \<notin> set (active (fst sp')))
        \<and> ((a \<in> set (snd sp') \<and> b \<in> set (snd sp'))
           \<or> (a \<in> set (active (fst sp')) \<and> b \<in> set (snd sp'))
           \<or> (b \<in> set (active (fst sp')) \<and> a \<in> set (snd sp')))"
      for sp' :: "('s, 'v, 't, 'g, 'q) Simulator \<times> nat list"
    have inv: "mealy_routing_invariant E g P"
      unfolding mealy_routing_invariant_def P_def by (auto simp: sorted_set_insert)
    have state: "(a \<in> set (removeAll model pa0) \<and> b \<in> set (removeAll model pa0))
           \<or> (a \<in> set (active s2) \<and> b \<in> set (removeAll model pa0))
           \<or> (b \<in> set (active s2) \<and> a \<in> set (removeAll model pa0))"
      using less.prems(3,4) other model ne by (auto simp: sp s2_def)
    have start: "P (s2, removeAll model pa0)"
      unfolding P_def using less.prems(1,2,3) state
      by (auto simp: sp s2_def sorted_removeAll)
    have mo: "mealy_output E sp
        = route_outputs_mealy E model (outputs (heap s2 model)) (s2, removeAll model pa0)"
      by (simp add: mealy_output_def Let_def model_def s2_def sp)
    have rule: "case route_outputs_mealy E model (outputs (heap s2 model))
                    (s2, removeAll model pa0) of
          Inr sp1 \<Rightarrow> P sp1
        | Inl (e, s') \<Rightarrow> e = Exception ''Feedback loop of Mealy models is illegal'' model
                          \<and> (\<exists>pa'. P (s', pa'))"
      by (rule route_outputs_mealy_rule [OF inv start])
    show ?thesis
    proof (cases "mealy_output E sp")
      case (Inl es)
      obtain e s' where es: "es = (e, s')" by (cases es)
      from Inl mo have "route_outputs_mealy E model (outputs (heap s2 model))
          (s2, removeAll model pa0) = Inl (e, s')"
        by (simp add: es)
      with rule have "e = Exception ''Feedback loop of Mealy models is illegal'' model"
        by simp
      with Inl es have "mealy_output E sp
          = Inl (Exception ''Feedback loop of Mealy models is illegal'' model, s')"
        by simp
      with nonempty show ?thesis
        by (subst mealy_outputs.simps) (simp add: sp)
    next
      case (Inr sp1)
      with mo have "route_outputs_mealy E model (outputs (heap s2 model))
          (s2, removeAll model pa0) = Inr sp1"
        by simp
      with rule have p1: "P sp1" by simp
      from bound notactive have "model \<in> {..max a b} - set (active s0)" by simp
      moreover from p1 have "model \<notin> {..max a b} - set (active (fst sp1))"
        and "{..max a b} - set (active (fst sp1)) \<subseteq> {..max a b} - set (active s0)"
        by (auto simp: P_def)
      ultimately have "{..max a b} - set (active (fst sp1)) \<subset> {..max a b} - set (active s0)"
        by blast
      then have less: "card ({..max a b} - set (active (fst sp1)))
          < card ({..max a b} - set (active (fst sp)))"
        by (simp add: psubset_card_mono sp)
      have shift: "loop_state E (Suc n) sp = loop_state E n sp1" for n
        using nonempty Inr by (simp add: sp)
      have emits1: "\<forall>n sp'. loop_state E n sp1 = Some sp' \<longrightarrow> snd sp' \<noteq> [] \<longrightarrow>
        (hd (snd sp') = a \<longrightarrow>
           (\<exists>y\<in>set (outputs (heap (call_mealy_output E a
                                     ((fst sp')\<lparr>active := set_insert a (active (fst sp'))\<rparr>)) a)).
              b \<in> snd ` set (route E g (pv_pin y))))
        \<and> (hd (snd sp') = b \<longrightarrow>
           (\<exists>y\<in>set (outputs (heap (call_mealy_output E b
                                     ((fst sp')\<lparr>active := set_insert b (active (fst sp'))\<rparr>)) b)).
              a \<in> snd ` set (route E g (pv_pin y))))"
        using less.prems(5) unfolding shift [symmetric] by blast
      from p1 have "couplings (graph (fst sp1)) = g" "sorted (snd sp1)"
        "\<forall>m\<in>set (snd sp1). isMealyAtomic E m \<and> m \<notin> set (active (fst sp1))"
        "(a \<in> set (snd sp1) \<and> b \<in> set (snd sp1))
           \<or> (a \<in> set (active (fst sp1)) \<and> b \<in> set (snd sp1))
           \<or> (b \<in> set (active (fst sp1)) \<and> a \<in> set (snd sp1))"
        by (simp_all add: P_def)
      from less.hyps [OF less this emits1]
      obtain m s' where "mealy_outputs E sp1
          = Some (Inl (Exception ''Feedback loop of Mealy models is illegal'' m, s'))"
        by blast
      with nonempty Inr show ?thesis
        by (subst mealy_outputs.simps) (simp add: sp)
    qed
  qed
qed

lemma imminent_outputs_keeps:
  fixes E :: "('s, 'v, 't, 'g, 'q) Env" and s :: "('s, 'v, 't, 'g, 'q) Simulator"
  assumes "m \<in> set pa"
  shows "m \<in> set (snd (imminent_outputs E imm (s, pa)))"
proof -
  define P where "P sp \<longleftrightarrow> couplings (graph (fst sp)) = couplings (graph s) \<and> m \<in> set (snd sp)"
    for sp :: "('s, 'v, 't, 'g, 'q) Simulator \<times> nat list"
  have inv: "routing_invariant E (couplings (graph s)) P"
    unfolding routing_invariant_def P_def by auto
  have "P (imminent_outputs E imm (s, pa))"
    by (rule imminent_outputs_rule [OF inv]) (use assms in \<open>auto simp: P_def\<close>)
  then show ?thesis by (simp add: P_def)
qed

lemma imminent_outputs_inserts:
  fixes E :: "('s, 'v, 't, 'g, 'q) Env" and s :: "('s, 'v, 't, 'g, 'q) Simulator"
  assumes "m \<in> set imm" and "isMealyAtomic E m"
  shows "m \<in> set (snd (imminent_outputs E imm (s, pa)))"
  using assms(1)
proof (induction imm arbitrary: s pa)
  case Nil
  then show ?case by simp
next
  case (Cons x imm)
  show ?case
  proof (cases "x = m")
    case True
    with assms(2) imminent_outputs_keeps [of m "set_insert m pa" E imm s] show ?thesis
      by simp
  next
    case False
    with Cons.prems have m: "m \<in> set imm" by simp
    show ?thesis
    proof (cases "isMealyAtomic E x")
      case True
      with Cons.IH [OF m, of s "set_insert x pa"] show ?thesis by simp
    next
      case False
      define s1 where "s1 = call_output_func E x (s\<lparr>active := set_insert x (active s)\<rparr>)"
      define sp2 where "sp2 = route_outputs E x (outputs (heap s1 x)) (s1, pa)"
      from Cons.IH [OF m, of "fst sp2" "snd sp2"] False show ?thesis
        by (simp add: s1_def sp2_def Let_def)
    qed
  qed
qed

text \<open>Two imminent Mealy models each of which emits to the other when its output is
  computed: \<^verbatim>\<open>computeNextOutput\<close> ends with the exception.\<close>

lemma cross_coupled_feedback:
  fixes E :: "('s, 'v, 't::minus, 'g, 'q) Env" and s :: "('s, 'v, 't, 'g, 'q) Simulator"
  assumes ne: "a \<noteq> b" and mealy: "isMealyAtomic E a" "isMealyAtomic E b"
    and imm: "minPriority E (sched s) = tNext s" "a \<in> set (visitImminent E (sched s))"
      "b \<in> set (visitImminent E (sched s))"
    and emits: "emits_to E s a b" "emits_to E s b a"
  shows "\<exists>m s'. computeNextOutput E s
           = Some (Inl (Exception ''Feedback loop of Mealy models is illegal'' m, s'))"
proof -
  define g where "g = couplings (graph s)"
  let ?sp1 = "route_external E (external_input s) (undo_prior s, [])"
  let ?s2 = "(fst ?sp1)\<lparr>external_input := []\<rparr>"
  define P where "P sp \<longleftrightarrow> couplings (graph (fst sp)) = g \<and> sorted (snd sp)"
    for sp :: "('s, 'v, 't, 'g, 'q) Simulator \<times> nat list"
  have inv: "routing_invariant E g P"
    unfolding routing_invariant_def P_def by (auto simp: sorted_set_insert)
  have "P (moore_outputs E s)"
    by (rule moore_outputs_rule [OF inv]) (auto simp: P_def g_def sorted_set_insert)
  then have g12: "couplings (graph (fst (moore_outputs E s))) = g"
    and srt: "sorted (snd (moore_outputs E s))"
    by (simp_all add: P_def)
  have pa: "\<forall>m\<in>set (snd (moore_outputs E s)).
      isMealyAtomic E m \<and> m \<notin> set (active (fst (moore_outputs E s)))"
    using moore_outputs_pending [of E s] by auto
  have mo: "moore_outputs E s = imminent_outputs E (visitImminent E (sched s)) (?s2, snd ?sp1)"
    using imm(1) by (simp add: moore_outputs_cases Let_def)
  have both: "a \<in> set (snd (moore_outputs E s))" "b \<in> set (snd (moore_outputs E s))"
    unfolding mo using imm(2,3) mealy by (simp_all add: imminent_outputs_inserts)
  have e: "\<forall>n sp'. loop_state E n (moore_outputs E s) = Some sp' \<longrightarrow> snd sp' \<noteq> [] \<longrightarrow>
        (hd (snd sp') = a \<longrightarrow>
           (\<exists>y\<in>set (outputs (heap (call_mealy_output E a
                                     ((fst sp')\<lparr>active := set_insert a (active (fst sp'))\<rparr>)) a)).
              b \<in> snd ` set (route E g (pv_pin y))))
        \<and> (hd (snd sp') = b \<longrightarrow>
           (\<exists>y\<in>set (outputs (heap (call_mealy_output E b
                                     ((fst sp')\<lparr>active := set_insert b (active (fst sp'))\<rparr>)) b)).
              a \<in> snd ` set (route E g (pv_pin y))))"
    using emits unfolding emits_to_def g_def by blast
  from both have "(a \<in> set (snd (moore_outputs E s)) \<and> b \<in> set (snd (moore_outputs E s)))
      \<or> (a \<in> set (active (fst (moore_outputs E s))) \<and> b \<in> set (snd (moore_outputs E s)))
      \<or> (b \<in> set (active (fst (moore_outputs E s))) \<and> a \<in> set (snd (moore_outputs E s)))"
    by simp
  from mealy_outputs_throws [OF mealy ne g12 srt pa this e] show ?thesis
    by (simp add: computeNextOutput_def)
qed

lemma sends_to_emits:
  fixes E :: "('s, 'v, 't::minus, 'g, 'q) Env"
  assumes "sends_to E (couplings (graph s)) a b"
  shows "emits_to E s a b"
  unfolding emits_to_def using call_mealy_output_sends [OF assms] by blast

text \<open>
  Claim C2.  Before the loop over \<^verbatim>\<open>pending_active\<close> no Mealy atomic is active: the
  active set is empty after the first loop of the call, and no step of the routing before
  the loop over \<^verbatim>\<open>pending_active\<close> puts a Mealy atomic into it.  In a turn
  of the loop, when an output of the model of the turn is routed to a Mealy atomic that is
  active (the model itself, or a model of an earlier turn), the call ends with the exception
  ``Feedback loop of Mealy models is illegal'', and no other exception leaves
  \<^verbatim>\<open>computeNextOutput\<close>.  With two imminent Mealy atomics each of which emits to the other
  when its output is computed, whatever other models and couplings there are,
  \<^verbatim>\<open>computeNextOutput\<close> ends with this exception.
\<close>

theorem mealy_feedback_rejected:
  fixes E :: "('s, 'v, 't::minus, 'g, 'q) Env" and s sl :: "('s, 'v, 't, 'g, 'q) Simulator"
  shows
    "(\<forall>m\<in>set (active (fst (moore_outputs E s))). \<not> isMealyAtomic E m)
     \<and> active (undo_prior s) = []
     \<and> routing_invariant E (couplings (graph s))
          (\<lambda>sp. couplings (graph (fst sp)) = couplings (graph s)
                \<and> (\<forall>m\<in>set (active (fst sp)). \<not> isMealyAtomic E m))
     \<and> (pa \<noteq> []
          \<and> y \<in> set (outputs (heap (call_mealy_output E (hd pa)
                                      (sl\<lparr>active := set_insert (hd pa) (active sl)\<rparr>)) (hd pa)))
          \<and> (p, c) \<in> set (route E (couplings (graph sl)) (pv_pin y))
          \<and> isMealyAtomic E c \<and> (c = hd pa \<or> c \<in> set (active sl)) \<longrightarrow>
        (\<exists>s'. mealy_outputs E (sl, pa)
           = Some (Inl (Exception ''Feedback loop of Mealy models is illegal'' (hd pa), s'))))
     \<and> (\<forall>e s'. computeNextOutput E s = Some (Inl (e, s')) \<longrightarrow>
          (\<exists>m. e = Exception ''Feedback loop of Mealy models is illegal'' m))
     \<and> (a \<noteq> b \<and> isMealyAtomic E a \<and> isMealyAtomic E b
          \<and> minPriority E (sched s) = tNext s
          \<and> a \<in> set (visitImminent E (sched s)) \<and> b \<in> set (visitImminent E (sched s))
          \<and> emits_to E s a b \<and> emits_to E s b a \<longrightarrow>
        (\<exists>m s'. computeNextOutput E s
           = Some (Inl (Exception ''Feedback loop of Mealy models is illegal'' m, s'))))"
proof (intro conjI)
  show "\<forall>m\<in>set (active (fst (moore_outputs E s))). \<not> isMealyAtomic E m"
    using moore_outputs_pending [of E s] by simp
  show "active (undo_prior s) = []"
    by simp
  show "routing_invariant E (couplings (graph s))
          (\<lambda>sp. couplings (graph (fst sp)) = couplings (graph s)
                \<and> (\<forall>m\<in>set (active (fst sp)). \<not> isMealyAtomic E m))"
    unfolding routing_invariant_def by auto
  show "pa \<noteq> []
          \<and> y \<in> set (outputs (heap (call_mealy_output E (hd pa)
                                      (sl\<lparr>active := set_insert (hd pa) (active sl)\<rparr>)) (hd pa)))
          \<and> (p, c) \<in> set (route E (couplings (graph sl)) (pv_pin y))
          \<and> isMealyAtomic E c \<and> (c = hd pa \<or> c \<in> set (active sl)) \<longrightarrow>
        (\<exists>s'. mealy_outputs E (sl, pa)
           = Some (Inl (Exception ''Feedback loop of Mealy models is illegal'' (hd pa), s')))"
    using mealy_outputs_feedback [of pa y E sl p c] by blast
  show "\<forall>e s'. computeNextOutput E s = Some (Inl (e, s')) \<longrightarrow>
          (\<exists>m. e = Exception ''Feedback loop of Mealy models is illegal'' m)"
    using computeNextOutput_frame(3) [of E s] by blast
  show "a \<noteq> b \<and> isMealyAtomic E a \<and> isMealyAtomic E b
          \<and> minPriority E (sched s) = tNext s
          \<and> a \<in> set (visitImminent E (sched s)) \<and> b \<in> set (visitImminent E (sched s))
          \<and> emits_to E s a b \<and> emits_to E s b a \<longrightarrow>
        (\<exists>m s'. computeNextOutput E s
           = Some (Inl (Exception ''Feedback loop of Mealy models is illegal'' m, s')))"
    using cross_coupled_feedback [of a b E s] by blast
qed

lemma S3_run:
  "\<exists>s'. computeNextOutput sys sim_S3
           = Some (Inl (Exception ''Feedback loop of Mealy models is illegal'' 6, s'))
     \<and> trace s' = [Call_output_func 5, Notify_outputEvent 0 5 \<lparr>pv_pin = 50, pv_value = 1\<rparr> 1,
                   Push_input 6 \<lparr>pv_pin = 61, pv_value = 1\<rparr>,
                   Call_confluent_output_func 6 [\<lparr>pv_pin = 61, pv_value = 1\<rparr>],
                   Notify_outputEvent 0 6 \<lparr>pv_pin = 60, pv_value = 1\<rparr> 1]"
  apply (simp add: computeNextOutput_def moore_outputs_def
      sim_S3_def graph_S3_def sys_fields edges_route_def list_minPriority_def
      list_visitImminent_def undo_prior_def fresh_def Let_def)
  apply (subst mealy_outputs.simps)
  apply (simp add: mealy_output_def call_mealy_output_def call_external_output_func_def
      call_output_func_def call_confluent_output_func_def notify_output_def push_input_def
      sys_fields edges_route_def Let_def)
  apply (subst mealy_outputs.simps)
  apply (simp add: mealy_output_def call_mealy_output_def call_external_output_func_def
      call_output_func_def call_confluent_output_func_def notify_output_def push_input_def
      sys_fields edges_route_def Let_def)
  done

lemma S3_wide_run:
  "\<exists>s'. computeNextOutput sys sim_S3_wide
           = Some (Inl (Exception ''Feedback loop of Mealy models is illegal'' 6, s'))
     \<and> trace s' = [Call_output_func 1, Notify_outputEvent 0 1 \<lparr>pv_pin = 10, pv_value = 1\<rparr> 1,
                   Call_output_func 2, Notify_outputEvent 0 2 \<lparr>pv_pin = 20, pv_value = 1\<rparr> 1,
                   Call_output_func 5, Notify_outputEvent 0 5 \<lparr>pv_pin = 50, pv_value = 1\<rparr> 1,
                   Push_input 6 \<lparr>pv_pin = 61, pv_value = 1\<rparr>,
                   Push_input 2 \<lparr>pv_pin = 21, pv_value = 1\<rparr>,
                   Call_confluent_output_func 6 [\<lparr>pv_pin = 61, pv_value = 1\<rparr>],
                   Notify_outputEvent 0 6 \<lparr>pv_pin = 60, pv_value = 1\<rparr> 1]"
  apply (simp add: computeNextOutput_def moore_outputs_def
      sim_S3_wide_def graph_S3_wide_def sys_fields edges_route_def list_minPriority_def
      list_visitImminent_def undo_prior_def call_output_func_def notify_output_def
      push_input_def fresh_def Let_def)
  apply (subst mealy_outputs.simps)
  apply (simp add: mealy_output_def call_mealy_output_def call_external_output_func_def
      call_output_func_def call_confluent_output_func_def notify_output_def push_input_def
      sys_fields edges_route_def Let_def)
  apply (subst mealy_outputs.simps)
  apply (simp add: mealy_output_def call_mealy_output_def call_external_output_func_def
      call_output_func_def call_confluent_output_func_def notify_output_def push_input_def
      sys_fields edges_route_def Let_def)
  done

theorem mealy_feedback_rejected_witness:
  "(5::nat) \<noteq> 6 \<and> isMealyAtomic sys 5 \<and> isMealyAtomic sys 6
   \<and> minPriority sys (sched sim_S3) = tNext sim_S3
   \<and> visitImminent sys (sched sim_S3) = [5, 6]
   \<and> emits_to sys sim_S3 5 6 \<and> emits_to sys sim_S3 6 5
   \<and> (\<exists>m s'. computeNextOutput sys sim_S3
          = Some (Inl (Exception ''Feedback loop of Mealy models is illegal'' m, s')))
   \<and> minPriority sys (sched sim_S3_wide) = tNext sim_S3_wide
   \<and> visitImminent sys (sched sim_S3_wide) = [1, 2, 5, 6]
   \<and> emits_to sys sim_S3_wide 5 6 \<and> emits_to sys sim_S3_wide 6 5
   \<and> (\<exists>m s'. computeNextOutput sys sim_S3_wide
          = Some (Inl (Exception ''Feedback loop of Mealy models is illegal'' m, s')))
   \<and> (\<exists>s'. mealy_outputs sys (sim_S3\<lparr>active := [5]\<rparr>, [6])
          = Some (Inl (Exception ''Feedback loop of Mealy models is illegal'' 6, s')))
   \<and> (\<exists>s'. computeNextOutput sys sim_S3
          = Some (Inl (Exception ''Feedback loop of Mealy models is illegal'' 6, s'))
        \<and> trace s' = [Call_output_func 5, Notify_outputEvent 0 5 \<lparr>pv_pin = 50, pv_value = 1\<rparr> 1,
                      Push_input 6 \<lparr>pv_pin = 61, pv_value = 1\<rparr>,
                      Call_confluent_output_func 6 [\<lparr>pv_pin = 61, pv_value = 1\<rparr>],
                      Notify_outputEvent 0 6 \<lparr>pv_pin = 60, pv_value = 1\<rparr> 1])
   \<and> (\<exists>s'. computeNextOutput sys sim_S3_wide
          = Some (Inl (Exception ''Feedback loop of Mealy models is illegal'' 6, s'))
        \<and> trace s' = [Call_output_func 1, Notify_outputEvent 0 1 \<lparr>pv_pin = 10, pv_value = 1\<rparr> 1,
                      Call_output_func 2, Notify_outputEvent 0 2 \<lparr>pv_pin = 20, pv_value = 1\<rparr> 1,
                      Call_output_func 5, Notify_outputEvent 0 5 \<lparr>pv_pin = 50, pv_value = 1\<rparr> 1,
                      Push_input 6 \<lparr>pv_pin = 61, pv_value = 1\<rparr>,
                      Push_input 2 \<lparr>pv_pin = 21, pv_value = 1\<rparr>,
                      Call_confluent_output_func 6 [\<lparr>pv_pin = 61, pv_value = 1\<rparr>],
                      Notify_outputEvent 0 6 \<lparr>pv_pin = 60, pv_value = 1\<rparr> 1])"
proof -
  let ?sl = "sim_S3\<lparr>active := [5]\<rparr>"
  have m: "(5::nat) \<noteq> 6" "isMealyAtomic sys 5" "isMealyAtomic sys 6"
    by (simp_all add: sys_fields)
  have imm: "minPriority sys (sched sim_S3) = tNext sim_S3"
    "visitImminent sys (sched sim_S3) = [5, 6]"
    by (simp_all add: sim_S3_def sys_fields list_minPriority_def list_visitImminent_def)
  have immw: "minPriority sys (sched sim_S3_wide) = tNext sim_S3_wide"
    "visitImminent sys (sched sim_S3_wide) = [1, 2, 5, 6]"
    by (simp_all add: sim_S3_wide_def sys_fields list_minPriority_def list_visitImminent_def)
  have "sends_to sys (couplings (graph sim_S3)) 5 6" "sends_to sys (couplings (graph sim_S3)) 6 5"
    by (simp_all add: sends_to_def sim_S3_def graph_S3_def sys_fields edges_route_def)
  then have em: "emits_to sys sim_S3 5 6" "emits_to sys sim_S3 6 5"
    by (simp_all add: sends_to_emits)
  have "sends_to sys (couplings (graph sim_S3_wide)) 5 6"
    "sends_to sys (couplings (graph sim_S3_wide)) 6 5"
    by (simp_all add: sends_to_def sim_S3_wide_def graph_S3_wide_def sys_fields edges_route_def)
  then have emw: "emits_to sys sim_S3_wide 5 6" "emits_to sys sim_S3_wide 6 5"
    by (simp_all add: sends_to_emits)
  have turn: "[6::nat] \<noteq> []
      \<and> \<lparr>pv_pin = 60, pv_value = 1\<rparr> \<in> set (outputs (heap (call_mealy_output sys (hd [6])
            (?sl\<lparr>active := set_insert (hd [6]) (active ?sl)\<rparr>)) (hd [6])))
      \<and> (51, 5) \<in> set (route sys (couplings (graph ?sl)) (pv_pin \<lparr>pv_pin = 60, pv_value = 1::nat\<rparr>))
      \<and> isMealyAtomic sys 5 \<and> (5 = hd [6::nat] \<or> 5 \<in> set (active ?sl))"
    by (simp add: call_mealy_output_def call_output_func_def sim_S3_def graph_S3_def sys_fields
        edges_route_def fresh_def)
  note inst = mealy_feedback_rejected [of sys sim_S3 "[6]" "\<lparr>pv_pin = 60, pv_value = 1\<rparr>" ?sl 51 5 5 6]
  note instw = mealy_feedback_rejected [of sys sim_S3_wide "[6]" "\<lparr>pv_pin = 60, pv_value = 1\<rparr>" ?sl 51 5 5 6]
  from inst turn have t: "\<exists>s'. mealy_outputs sys (?sl, [6])
      = Some (Inl (Exception ''Feedback loop of Mealy models is illegal'' 6, s'))"
    by simp
  from inst m imm em have c: "\<exists>m s'. computeNextOutput sys sim_S3
      = Some (Inl (Exception ''Feedback loop of Mealy models is illegal'' m, s'))"
    by simp
  from instw m immw emw have cw: "\<exists>m s'. computeNextOutput sys sim_S3_wide
      = Some (Inl (Exception ''Feedback loop of Mealy models is illegal'' m, s'))"
    by simp
  from m imm immw em emw t c cw S3_run S3_wide_run show ?thesis
    by simp
qed

text \<open>Two Mealy models that relay, coupled to each other and both imminent, without input:
  each \<^verbatim>\<open>output_func\<close> sends nothing, nothing is routed, and \<^verbatim>\<open>computeNextOutput\<close> returns.\<close>

theorem cross_coupled_relays_return:
  "isMealyAtomic sys_relay 5 \<and> isMealyAtomic sys_relay 6
   \<and> route sys_relay (couplings (graph sim_S3)) 50 = [(61, 6)]
   \<and> route sys_relay (couplings (graph sim_S3)) 60 = [(51, 5)]
   \<and> confluent_output_func sys_relay 5 (0, 0, 0) [\<lparr>pv_pin = 51, pv_value = 1\<rparr>] []
       = [\<lparr>pv_pin = 50, pv_value = 1\<rparr>]
   \<and> confluent_output_func sys_relay 6 (0, 0, 0) [\<lparr>pv_pin = 61, pv_value = 1\<rparr>] []
       = [\<lparr>pv_pin = 60, pv_value = 1\<rparr>]
   \<and> minPriority sys_relay (sched sim_S3) = tNext sim_S3
   \<and> visitImminent sys_relay (sched sim_S3) = [5, 6]
   \<and> map_option isl (computeNextOutput sys_relay sim_S3) = Some False
   \<and> map_option (trace \<circ> left_by) (computeNextOutput sys_relay sim_S3)
       = Some [Call_output_func 5, Call_output_func 6]
   \<and> map_option (active \<circ> left_by) (computeNextOutput sys_relay sim_S3) = Some [5, 6]"
proof -
  have f: "route sys_relay = edges_route" "isMealyAtomic sys_relay = (\<lambda>m. m = 5 \<or> m = 6)"
    "minPriority sys_relay = list_minPriority 2147483647"
    "visitImminent sys_relay = list_visitImminent 2147483647"
    "output_func sys_relay = (\<lambda>m st yb. yb)"
    "confluent_output_func sys_relay
       = (\<lambda>m st xb yb. yb @ [\<lparr>pv_pin = 10 * m, pv_value = length xb\<rparr>])"
    by (simp_all add: sys_relay_def sys_def)
  have run: "\<exists>s'. computeNextOutput sys_relay sim_S3 = Some (Inr s')
          \<and> trace s' = [Call_output_func 5, Call_output_func 6]
          \<and> active s' = [5, 6]"
    apply (simp add: computeNextOutput_def moore_outputs_def
        sim_S3_def graph_S3_def f edges_route_def list_minPriority_def
        list_visitImminent_def undo_prior_def fresh_def Let_def)
    apply (subst mealy_outputs.simps)
    apply (simp add: mealy_output_def call_mealy_output_def call_output_func_def f Let_def)
    apply (subst mealy_outputs.simps)
    apply (simp add: mealy_output_def call_mealy_output_def call_output_func_def f Let_def)
    apply (subst mealy_outputs.simps)
    apply simp
    done
  then have "map_option isl (computeNextOutput sys_relay sim_S3) = Some False
      \<and> map_option (trace \<circ> left_by) (computeNextOutput sys_relay sim_S3)
          = Some [Call_output_func 5, Call_output_func 6]
      \<and> map_option (active \<circ> left_by) (computeNextOutput sys_relay sim_S3) = Some [5, 6]"
    by (auto simp: left_by_def)
  moreover have "isMealyAtomic sys_relay 5 \<and> isMealyAtomic sys_relay 6
      \<and> route sys_relay (couplings (graph sim_S3)) 50 = [(61, 6)]
      \<and> route sys_relay (couplings (graph sim_S3)) 60 = [(51, 5)]
      \<and> confluent_output_func sys_relay 5 (0, 0, 0) [\<lparr>pv_pin = 51, pv_value = 1\<rparr>] []
          = [\<lparr>pv_pin = 50, pv_value = 1\<rparr>]
      \<and> confluent_output_func sys_relay 6 (0, 0, 0) [\<lparr>pv_pin = 61, pv_value = 1\<rparr>] []
          = [\<lparr>pv_pin = 60, pv_value = 1\<rparr>]
      \<and> minPriority sys_relay (sched sim_S3) = tNext sim_S3
      \<and> visitImminent sys_relay (sched sim_S3) = [5, 6]"
    by (simp add: f sim_S3_def graph_S3_def edges_route_def list_minPriority_def
        list_visitImminent_def)
  ultimately show ?thesis by blast
qed

end
